theory Spec2Isabelle
  imports Complex_Main "HOL-Library.Sublist"
begin

chapter \<open>The program\<close>

section \<open>Strings as the program sees them\<close>

text \<open>
  A JavaScript string is a sequence of UTF-16 code units. The model uses \<^typ>\<open>string\<close>
  (a list of \<^typ>\<open>char\<close>), read as the code units below 256: \<open>length\<close> is the
  source's \<open>.length\<close>, and the character classes below are the ECMAScript ones cut
  down to that range.
\<close>

definition isWhiteSpace :: "char \<Rightarrow> bool" where
  \<comment> \<open>ECMAScript WhiteSpace and LineTerminator (what \<open>trim\<close> strips and \<open>\s\<close> matches):
      TAB, LF, VT, FF, CR, SP, NBSP.\<close>
  "isWhiteSpace c = (c \<in> set [CHR 0x09, CHR 0x0A, CHR 0x0B, CHR 0x0C, CHR 0x0D, CHR 0x20, CHR 0xA0])"

definition isLineTerminator :: "char \<Rightarrow> bool" where
  \<comment> \<open>what the regular expression atom \<open>.\<close> refuses: LF and CR.\<close>
  "isLineTerminator c = (c \<in> set [CHR 0x0A, CHR 0x0D])"

definition trim :: "string \<Rightarrow> string" where
  "trim s = rev (dropWhile isWhiteSpace (rev (dropWhile isWhiteSpace s)))"

definition upperChars :: "char list" where
  "upperChars = ''ABCDEFGHIJKLMNOPQRSTUVWXYZ'' @
     [CHR 0xC0, CHR 0xC1, CHR 0xC2, CHR 0xC3, CHR 0xC4, CHR 0xC5, CHR 0xC6, CHR 0xC7,
      CHR 0xC8, CHR 0xC9, CHR 0xCA, CHR 0xCB, CHR 0xCC, CHR 0xCD, CHR 0xCE, CHR 0xCF,
      CHR 0xD0, CHR 0xD1, CHR 0xD2, CHR 0xD3, CHR 0xD4, CHR 0xD5, CHR 0xD6,
      CHR 0xD8, CHR 0xD9, CHR 0xDA, CHR 0xDB, CHR 0xDC, CHR 0xDD, CHR 0xDE]"

definition lowerChars :: "char list" where
  "lowerChars = ''abcdefghijklmnopqrstuvwxyz'' @
     [CHR 0xE0, CHR 0xE1, CHR 0xE2, CHR 0xE3, CHR 0xE4, CHR 0xE5, CHR 0xE6, CHR 0xE7,
      CHR 0xE8, CHR 0xE9, CHR 0xEA, CHR 0xEB, CHR 0xEC, CHR 0xED, CHR 0xEE, CHR 0xEF,
      CHR 0xF0, CHR 0xF1, CHR 0xF2, CHR 0xF3, CHR 0xF4, CHR 0xF5, CHR 0xF6,
      CHR 0xF8, CHR 0xF9, CHR 0xFA, CHR 0xFB, CHR 0xFC, CHR 0xFD, CHR 0xFE]"

definition toLowerChar :: "char \<Rightarrow> char" where
  "toLowerChar c = (case map_of (zip upperChars lowerChars) c of Some d \<Rightarrow> d | None \<Rightarrow> c)"

definition toLowerCase :: "string \<Rightarrow> string" where
  "toLowerCase s = map toLowerChar s"

fun includes_str :: "string \<Rightarrow> string \<Rightarrow> bool" where
  \<comment> \<open>\<open>s.includes(sub)\<close>: \<open>sub\<close> occurs in \<open>s\<close> at some index.\<close>
  "includes_str [] sub = (sub = [])"
| "includes_str (c # cs) sub = (prefix sub (c # cs) \<or> includes_str cs sub)"

fun split_str :: "string \<Rightarrow> string \<Rightarrow> string list" where
  \<comment> \<open>\<open>s.split(sep)\<close> for a non-empty string separator: the pieces between the
      occurrences of \<open>sep\<close> found from left to right without overlap.\<close>
  "split_str sep [] = [[]]"
| "split_str sep (c # cs) =
     (if sep \<noteq> [] \<and> prefix sep (c # cs)
      then [] # split_str sep (drop (length sep - 1) cs)
      else (case split_str sep cs of
              [] \<Rightarrow> [[c]]
            | p # ps \<Rightarrow> (c # p) # ps))"

fun join_str :: "string \<Rightarrow> string list \<Rightarrow> string" where
  \<comment> \<open>\<open>parts.join(sep)\<close>\<close>
  "join_str sep [] = []"
| "join_str sep [x] = x"
| "join_str sep (x # y # ys) = x @ sep @ join_str sep (y # ys)"

section \<open>The section restructurer: \<open>processFoundParagraph\<close>\<close>

record DebugData =
  dd_fileName :: string
  dd_paragraphIndex :: nat
  dd_originalParagraph :: string
  dd_searchTerm :: string
  dd_containsPipe :: bool
  dd_splitCount :: nat
  dd_sentences :: "string list"
  dd_selectedSentences :: "string list"
  dd_finalParagraph :: string

fun select_sentences ::
  "string \<Rightarrow> string list \<Rightarrow> string list \<times> string list \<Rightarrow> string list \<times> string list" where
  \<comment> \<open>the \<open>for\<close> loop over \<open>sentences[1..]\<close>; the state is
      \<open>(finalParagraphParts, selectedSentences)\<close>, each \<open>push\<close> appends.\<close>
  "select_sentences processedSearchTerm [] (parts, sel) = (parts, sel)"
| "select_sentences processedSearchTerm (sentence # rest) (parts, sel) =
     (if includes_str (toLowerCase sentence) processedSearchTerm
      then select_sentences processedSearchTerm rest
             (parts @ [sentence], sel @ [''[MATCH] '' @ sentence])
      else select_sentences processedSearchTerm rest
             (parts, sel @ [''[SKIP] '' @ sentence]))"

definition processFoundParagraph ::
  "string \<Rightarrow> string \<Rightarrow> string \<Rightarrow> nat \<Rightarrow> string \<times> DebugData" where
  "processFoundParagraph paragraph searchTerm fileName paragraphIndex =
     (let processedSearchTerm = toLowerCase (trim searchTerm);
          debugData = \<lparr> dd_fileName = fileName, dd_paragraphIndex = paragraphIndex,
                        dd_originalParagraph = paragraph, dd_searchTerm = processedSearchTerm,
                        dd_containsPipe = includes_str paragraph ''|'',
                        dd_splitCount = length (split_str ''|'' paragraph),
                        dd_sentences = [], dd_selectedSentences = [],
                        dd_finalParagraph = [] \<rparr>
      in if includes_str paragraph ''|'' \<and> length (split_str ''|'' paragraph) \<ge> 3
         then (let sentences = map trim (split_str ''|'' paragraph);
                   (parts, sel) = select_sentences processedSearchTerm (tl sentences)
                                    ([hd sentences], [''[BASE] '' @ hd sentences]);
                   result = join_str '' '' parts
               in (result, debugData \<lparr> dd_sentences := sentences,
                                        dd_selectedSentences := sel,
                                        dd_finalParagraph := result \<rparr>))
         else (paragraph, debugData \<lparr> dd_finalParagraph := paragraph \<rparr>))"

definition restructure :: "string \<Rightarrow> string \<Rightarrow> string" where
  \<comment> \<open>the \<open>processed\<close> field of the result; file name and index only reach the trace.\<close>
  "restructure paragraph searchTerm = fst (processFoundParagraph paragraph searchTerm [] 0)"

section \<open>The segmentation selector: \<open>splitTextIntoParagraphs\<close>\<close>

fun replace_crlf :: "string \<Rightarrow> string" where
  \<comment> \<open>\<open>text.replace(/\r\n/g, '\n')\<close>\<close>
  "replace_crlf [] = []"
| "replace_crlf [c] = [c]"
| "replace_crlf (c # d # cs) =
     (if c = CHR 0x0D \<and> d = CHR 0x0A then CHR 0x0A # replace_crlf cs
      else c # replace_crlf (d # cs))"

definition replace_cr :: "string \<Rightarrow> string" where
  \<comment> \<open>\<open>.replace(/\r/g, '\n')\<close>\<close>
  "replace_cr s = map (\<lambda>c. if c = CHR 0x0D then CHR 0x0A else c) s"

definition normalizeLineEndings :: "string \<Rightarrow> string" where
  "normalizeLineEndings s = replace_cr (replace_crlf s)"

function split_newlines2 :: "string \<Rightarrow> string list" where
  \<comment> \<open>\<open>s.split(/\n{2,}/)\<close>: the separator at an index is the longest run of line feeds
      starting there, when that run has at least two.\<close>
  "split_newlines2 [] = [[]]"
| "split_newlines2 (c # cs) =
     (if c = CHR 0x0A \<and> (case cs of [] \<Rightarrow> False | d # _ \<Rightarrow> d = CHR 0x0A)
      then [] # split_newlines2 (dropWhile (\<lambda>d. d = CHR 0x0A) cs)
      else (case split_newlines2 cs of
              [] \<Rightarrow> [[c]]
            | p # ps \<Rightarrow> (c # p) # ps))"
  by pat_completeness auto
termination
  by (relation "measure length") (auto simp: length_dropWhile_le less_Suc_eq_le)

fun count_matches :: "string \<Rightarrow> string \<Rightarrow> nat" where
  \<comment> \<open>the number of matches \<open>s.match(/lit/g)\<close> collects for a pattern that stands for the
      literal \<open>lit\<close>: the scan restarts where the last match ended (one further on
      after an empty match).\<close>
  "count_matches lit [] = (if lit = [] then 1 else 0)"
| "count_matches lit (c # cs) =
     (if prefix lit (c # cs) then Suc (count_matches lit (drop (length lit - 1) cs))
      else count_matches lit cs)"

definition nonBlank :: "string \<Rightarrow> bool" where
  \<comment> \<open>the filter \<open>p => p.trim()\<close>: a non-empty string is truthy.\<close>
  "nonBlank p = (trim p \<noteq> [])"

record SplitMethod =
  sm_name :: string
  sm_result :: "string list"

record SplitMethodInfo =
  smi_name :: string
  smi_paragraphCount :: nat
  smi_avgLength :: nat
  smi_sample :: "string list"

record SplitInfo =
  si_originalLength :: nat
  si_normalizedLength :: nat
  si_hasCarriageReturns :: bool
  si_hasWindowsLineEndings :: bool
  si_doubleNewlineCount :: nat
  si_singleNewlineCount :: nat
  si_splitMethods :: "SplitMethodInfo list"
  si_chosenMethod :: string

definition splitMethods :: "string \<Rightarrow> SplitMethod list" where
  "splitMethods normalizedText =
     [\<lparr> sm_name = ''Double newline ('' @ [CHR 0x5C, CHR ''n'', CHR 0x5C, CHR ''n''] @ '')'',
         sm_result = filter nonBlank (split_str ''\<newline>\<newline>'' normalizedText) \<rparr>,
      \<lparr> sm_name = ''Single newline ('' @ [CHR 0x5C, CHR ''n''] @ '')'',
         sm_result = filter nonBlank (split_str ''\<newline>'' normalizedText) \<rparr>,
      \<lparr> sm_name = ''Triple newline ('' @ [CHR 0x5C, CHR ''n'', CHR 0x5C, CHR ''n'', CHR 0x5C, CHR ''n''] @ '')'',
         sm_result = filter nonBlank (split_str ''\<newline>\<newline>\<newline>'' normalizedText) \<rparr>,
      \<lparr> sm_name = ''Regex: 2+ newlines'',
         sm_result = filter nonBlank (split_newlines2 normalizedText) \<rparr>]"

definition methodInfo :: "SplitMethod \<Rightarrow> SplitMethodInfo" where
  \<comment> \<open>\<open>Math.round(sum / n)\<close> on non-negative integers is \<open>(2 * sum + n) div (2 * n)\<close>.\<close>
  "methodInfo m =
     \<lparr> smi_name = sm_name m,
       smi_paragraphCount = length (sm_result m),
       smi_avgLength = (if length (sm_result m) > 0
          then (2 * sum_list (map length (sm_result m)) + length (sm_result m))
                 div (2 * length (sm_result m))
          else 0),
       smi_sample = map (\<lambda>p. take 100 p @ (if length p > 100 then ''...'' else []))
                      (take 3 (sm_result m)) \<rparr>"

definition splitTextIntoParagraphs :: "string \<Rightarrow> string list \<times> SplitInfo" where
  "splitTextIntoParagraphs s =
     (let normalizedText = normalizeLineEndings s;
          methods = splitMethods normalizedText;
          chosenMethod = methods ! 0;
          chosenMethod =
            (if length (sm_result (methods ! 0)) < 3 \<and>
                length (sm_result (methods ! 1)) > length (sm_result (methods ! 0))
             then methods ! 1 else chosenMethod);
          chosenMethod =
            (if length (sm_result chosenMethod) > 50 \<and>
                list_ex (\<lambda>p. length p < 20) (sm_result chosenMethod)
             then methods ! 0 else chosenMethod)
      in (sm_result chosenMethod,
          \<lparr> si_originalLength = length s,
            si_normalizedLength = length normalizedText,
            si_hasCarriageReturns = includes_str s [CHR 0x0D],
            si_hasWindowsLineEndings = includes_str s [CHR 0x0D, CHR 0x0A],
            si_doubleNewlineCount = count_matches ''\<newline>\<newline>'' normalizedText,
            si_singleNewlineCount = count_matches ''\<newline>'' normalizedText,
            si_splitMethods = map methodInfo methods,
            si_chosenMethod = sm_name chosenMethod \<rparr>))"

section \<open>The search: \<open>handleSearch\<close>\<close>

definition escapedChars :: "char list" where
  \<comment> \<open>the class \<open>[.*+?^${}()|[\]\\]\<close> of the source's \<open>replace\<close>\<close>
  "escapedChars = ''.*+?^${}()|[]'' @ [CHR 0x5C]"

definition escapeRegExp :: "string \<Rightarrow> string" where
  \<comment> \<open>\<open>processedTerm.replace(/[.*+?^${}()|[\]\\]/g, '\\$&')\<close>: a backslash before each
      character of the class.\<close>
  "escapeRegExp t = concat (map (\<lambda>c. if c \<in> set escapedChars then [CHR 0x5C, c] else [c]) t)"

definition syntaxCharacters :: "char list" where
  \<comment> \<open>ECMAScript's SyntaxCharacter: \<open>^ $ \ . * + ? ( ) [ ] { } |\<close>\<close>
  "syntaxCharacters = ''^$'' @ [CHR 0x5C] @ ''.*+?()[]{}|''"

fun regexp_literal :: "string \<Rightarrow> string option" where
  \<comment> \<open>\<open>new RegExp(pattern)\<close> for the patterns that stand for a literal: a character
      that is no SyntaxCharacter matches itself, a backslash before a SyntaxCharacter
      matches that character. \<open>None\<close>: the pattern uses an operator or another escape
      (or is a syntax error), which this model does not cover.\<close>
  "regexp_literal [] = Some []"
| "regexp_literal (c # cs) =
     (if c = CHR 0x5C
      then (case cs of
              [] \<Rightarrow> None
            | d # ds \<Rightarrow> (if d \<in> set syntaxCharacters
                         then map_option ((#) d) (regexp_literal ds) else None))
      else if c \<in> set syntaxCharacters then None
      else map_option ((#) c) (regexp_literal cs))"

definition paragraphOccurrences :: "string \<Rightarrow> string \<Rightarrow> nat" where
  \<comment> \<open>\<open>matches ? matches.length : 0\<close> for
      \<open>paragraph.toLowerCase().match(new RegExp(escaped, 'g'))\<close>. The \<open>None\<close> branch is
      never taken (lemma \<open>regexp_literal_escape\<close>).\<close>
  "paragraphOccurrences paragraph processedTerm =
     (case regexp_literal (escapeRegExp processedTerm) of
        Some lit \<Rightarrow> count_matches lit (toLowerCase paragraph)
      | None \<Rightarrow> 0)"

function show_nat :: "nat \<Rightarrow> string" where
  \<comment> \<open>a non-negative integer in a template literal: its decimal digits\<close>
  "show_nat n = (if n < 10 then [''0123456789'' ! n]
                 else show_nat (n div 10) @ [''0123456789'' ! (n mod 10)])"
  by pat_completeness auto
termination
  by (relation "measure id") auto

record FileData =
  fd_id :: string
  fd_name :: string
  fd_content :: string
  fd_size :: nat
  fd_type :: string

record SearchResult =
  sr_fileName :: string
  sr_foundParagraphs :: "string list"
  sr_totalParagraphs :: nat
  sr_occurrenceCount :: nat

record DebugInfo =
  di_fileName :: string
  di_paragraphIndex :: nat
  di_originalParagraph :: string
  di_processedParagraph :: string
  di_debugDetails :: DebugData
  di_splitInfo :: "SplitInfo option"

record AppState =
  st_files :: "FileData list"
  st_searchResults :: "SearchResult list"
  st_searchTerm :: string
  st_isSearching :: bool
  st_debugInfo :: "DebugInfo list"

fun scan_paragraphs ::
  "string \<Rightarrow> string \<Rightarrow> string \<Rightarrow> nat \<Rightarrow> string list \<Rightarrow>
   string list \<times> nat \<times> DebugInfo list \<Rightarrow> string list \<times> nat \<times> DebugInfo list" where
  \<comment> \<open>the loop over \<open>allParagraphs\<close> from index \<open>i\<close>; the state is
      \<open>(foundParagraphs, occurrenceCount, allDebugInfo)\<close>.\<close>
  "scan_paragraphs tm processedTerm fileName i [] acc = acc"
| "scan_paragraphs tm processedTerm fileName i (paragraph # rest) (found, occ, dbg) =
     (if includes_str (toLowerCase paragraph) processedTerm
      then (let (processed, debug) = processFoundParagraph paragraph tm fileName (i + 1)
            in scan_paragraphs tm processedTerm fileName (i + 1) rest
                 (found @ [processed],
                  occ + paragraphOccurrences paragraph processedTerm,
                  dbg @ [\<lparr> di_fileName = fileName, di_paragraphIndex = i + 1,
                            di_originalParagraph = paragraph,
                            di_processedParagraph = processed,
                            di_debugDetails = debug, di_splitInfo = None \<rparr>]))
      else scan_paragraphs tm processedTerm fileName (i + 1) rest (found, occ, dbg))"

definition fileDebugInfo ::
  "(SplitInfo \<Rightarrow> string) \<Rightarrow> FileData \<Rightarrow> string \<Rightarrow> string list \<Rightarrow> SplitInfo \<Rightarrow> DebugInfo" where
  \<comment> \<open>the file-level entry; \<open>stringify\<close> stands for \<open>JSON.stringify(splitInfo, null, 2)\<close>.\<close>
  "fileDebugInfo stringify file processedTerm allParagraphs splitInfo =
     \<lparr> di_fileName = fd_name file, di_paragraphIndex = 0,
       di_originalParagraph = ''FILE SPLIT INFO: '' @ stringify splitInfo,
       di_processedParagraph = ''Total paragraphs found: '' @ show_nat (length allParagraphs),
       di_debugDetails =
         \<lparr> dd_fileName = fd_name file, dd_paragraphIndex = 0,
           dd_originalParagraph = take 500 (fd_content file) @
              (if length (fd_content file) > 500 then ''...'' else []),
           dd_searchTerm = processedTerm, dd_containsPipe = False, dd_splitCount = 0,
           dd_sentences = [],
           dd_selectedSentences = [''Split method: '' @ si_chosenMethod splitInfo,
              ''Paragraphs found: '' @ show_nat (length allParagraphs)],
           dd_finalParagraph = ''File processing complete'' \<rparr>,
       di_splitInfo = Some splitInfo \<rparr>"

definition search_file ::
  "(SplitInfo \<Rightarrow> string) \<Rightarrow> FileData \<Rightarrow> string \<Rightarrow> string \<Rightarrow> DebugInfo list \<Rightarrow>
   SearchResult \<times> DebugInfo list" where
  \<comment> \<open>the body of the loop over the selected files, for a file that was found\<close>
  "search_file stringify file tm processedTerm allDebugInfo =
     (let (allParagraphs, splitInfo) = splitTextIntoParagraphs (fd_content file);
          (foundParagraphs, occurrenceCount, dbg) =
             scan_paragraphs tm processedTerm (fd_name file) 0 allParagraphs
               ([], 0, allDebugInfo @
                  [fileDebugInfo stringify file processedTerm allParagraphs splitInfo])
      in (\<lparr> sr_fileName = fd_name file, sr_foundParagraphs = foundParagraphs,
             sr_totalParagraphs = length allParagraphs,
             sr_occurrenceCount = occurrenceCount \<rparr>, dbg))"

fun search_files ::
  "(SplitInfo \<Rightarrow> string) \<Rightarrow> FileData list \<Rightarrow> string \<Rightarrow> string \<Rightarrow> string list \<Rightarrow>
   SearchResult list \<times> DebugInfo list \<Rightarrow> SearchResult list \<times> DebugInfo list" where
  \<comment> \<open>the loop over \<open>selectedFileIds\<close>; the state is \<open>(results, allDebugInfo)\<close>.\<close>
  "search_files stringify files tm processedTerm [] acc = acc"
| "search_files stringify files tm processedTerm (fileId # rest) (results, allDebugInfo) =
     (case find (\<lambda>f. fd_id f = fileId) files of
        None \<Rightarrow> search_files stringify files tm processedTerm rest (results, allDebugInfo)
      | Some file \<Rightarrow>
          (let (result, dbg) = search_file stringify file tm processedTerm allDebugInfo
           in search_files stringify files tm processedTerm rest (results @ [result], dbg)))"

definition handleSearch ::
  "(SplitInfo \<Rightarrow> string) \<Rightarrow> AppState \<Rightarrow> string \<Rightarrow> string list \<Rightarrow> AppState" where
  \<comment> \<open>the state after the call; an early return leaves it as it was.\<close>
  "handleSearch stringify st tm selectedFileIds =
     (if trim tm = [] \<or> selectedFileIds = [] then st
      else (let processedTerm = toLowerCase (trim tm);
                (results, allDebugInfo) =
                   search_files stringify (st_files st) tm processedTerm selectedFileIds ([], [])
            in st \<lparr> st_isSearching := False, st_searchTerm := tm,
                    st_searchResults := results, st_debugInfo := allDebugInfo \<rparr>))"

section \<open>The inline markup tokenizer: \<open>parseMarkdown\<close>\<close>

datatype ElementType = Text | Bold | Italic | Code | Header

record MarkdownElement =
  me_type :: ElementType
  me_content :: string
  me_level :: "nat option"

definition char_at :: "string \<Rightarrow> nat \<Rightarrow> char option" where
  \<comment> \<open>\<open>text[i]\<close>: \<open>undefined\<close> past the end\<close>
  "char_at s i = (if i < length s then Some (s ! i) else None)"

definition slice :: "string \<Rightarrow> nat \<Rightarrow> nat \<Rightarrow> string" where
  \<comment> \<open>\<open>text.slice(a, b)\<close> for indices that are not negative; \<open>text.slice(a)\<close> is \<open>drop a\<close>.\<close>
  "slice s a b = take (b - a) (drop a s)"

fun indexOf :: "string \<Rightarrow> string \<Rightarrow> nat option" where
  \<comment> \<open>\<open>s.indexOf(sub)\<close>; \<open>None\<close> is \<open>-1\<close>.\<close>
  "indexOf [] sub = (if sub = [] then Some 0 else None)"
| "indexOf (c # cs) sub =
     (if prefix sub (c # cs) then Some 0 else map_option Suc (indexOf cs sub))"

definition headingText :: "string \<Rightarrow> string option" where
  \<comment> \<open>\<open>(.+?)(?=\n|$)\<close> at the start of \<open>r\<close>: the lazy group grows one character at a
      time over characters that are no line terminators, and stops at the first length
      after which a line feed or the end of input follows; that can only be the whole
      run up to the first line terminator.\<close>
  "headingText r =
     (let c = takeWhile (\<lambda>x. \<not> isLineTerminator x) r
      in if c \<noteq> [] \<and> (case drop (length c) r of [] \<Rightarrow> True | x # _ \<Rightarrow> x = CHR 0x0A)
         then Some c else None)"

fun headingAfterSpaces :: "nat \<Rightarrow> string \<Rightarrow> (nat \<times> string) option" where
  \<comment> \<open>\<open>\s+\<close> followed by the heading text: the greedy \<open>\s+\<close> first takes all \<open>w\<close>
      white space characters and gives them back one at a time, down to one, until
      the rest of the pattern matches.\<close>
  "headingAfterSpaces 0 r = None"
| "headingAfterSpaces (Suc w) r =
     (case headingText (drop (Suc w) r) of
        Some c \<Rightarrow> Some (Suc w, c)
      | None \<Rightarrow> headingAfterSpaces w r)"

definition headerMatch :: "string \<Rightarrow> (nat \<times> string \<times> nat) option" where
  \<comment> \<open>\<open>s.match(/^(#{1,6})\s+(.+?)(?=\n|$)/)\<close> as (length of group 1, group 2, length of
      the match). \<open>#{1,6}\<close> must take the whole run of \<open>#\<close>: after fewer, the next
      character is a \<open>#\<close>, which \<open>\s\<close> refuses; so a run longer than 6 never matches.\<close>
  "headerMatch s =
     (let h = length (takeWhile (\<lambda>c. c = CHR ''#'') s)
      in if 1 \<le> h \<and> h \<le> 6
         then (case headingAfterSpaces (length (takeWhile isWhiteSpace (drop h s))) (drop h s) of
                 Some (w, c) \<Rightarrow> Some (h, c, h + w + length c)
               | None \<Rightarrow> None)
         else None)"

definition tryHeader :: "string \<Rightarrow> nat \<Rightarrow> (nat \<times> string \<times> nat) option" where
  "tryHeader s ci =
     (if char_at s ci = Some (CHR ''#'') \<and> (ci = 0 \<or> char_at s (ci - 1) = Some (CHR 0x0A))
      then headerMatch (drop ci s) else None)"

definition tryBold :: "string \<Rightarrow> nat \<Rightarrow> string option" where
  "tryBold s ci =
     (if slice s ci (ci + 2) = ''**''
      then (let remainingText = drop (ci + 2) s
            in case indexOf remainingText ''**'' of
                 Some endIndex \<Rightarrow> if endIndex > 0 then Some (slice remainingText 0 endIndex) else None
               | None \<Rightarrow> None)
      else None)"

definition tryItalic :: "string \<Rightarrow> nat \<Rightarrow> string option" where
  "tryItalic s ci =
     (if char_at s ci = Some (CHR ''*'') \<and> char_at s (ci + 1) \<noteq> Some (CHR ''*'') \<and>
         (ci = 0 \<or> char_at s (ci - 1) \<noteq> Some (CHR ''*''))
      then (let remainingText = drop (ci + 1) s
            in case indexOf remainingText ''*'' of
                 Some endIndex \<Rightarrow>
                   if endIndex > 0 \<and>
                      (ci + 2 + endIndex \<ge> length s \<or>
                       char_at s (ci + 2 + endIndex) \<noteq> Some (CHR ''*''))
                   then Some (slice remainingText 0 endIndex) else None
               | None \<Rightarrow> None)
      else None)"

definition tryCode :: "string \<Rightarrow> nat \<Rightarrow> string option" where
  "tryCode s ci =
     (if char_at s ci = Some (CHR 0x60)
      then (let remainingText = drop (ci + 1) s
            in case indexOf remainingText [CHR 0x60] of
                 Some endIndex \<Rightarrow> if endIndex > 0 then Some (slice remainingText 0 endIndex) else None
               | None \<Rightarrow> None)
      else None)"

definition nextMarkdownIndex :: "string \<Rightarrow> nat \<Rightarrow> nat" where
  \<comment> \<open>the \<open>for\<close> loop from \<open>currentIndex + 1\<close>: the first index that may start a construct,
      or \<open>text.length\<close>.\<close>
  "nextMarkdownIndex s ci =
     (case find (\<lambda>i. s ! i = CHR ''*'' \<or> s ! i = CHR 0x60 \<or>
                      (s ! i = CHR ''#'' \<and> s ! (i - 1) = CHR 0x0A)) [ci + 1 ..< length s] of
        Some i \<Rightarrow> i
      | None \<Rightarrow> length s)"

definition scan :: "string \<Rightarrow> nat \<Rightarrow> MarkdownElement list \<times> nat" where
  \<comment> \<open>one pass through the body of the \<open>while\<close> loop at \<open>currentIndex = ci\<close>: the elements
      pushed and the new \<open>currentIndex\<close>.\<close>
  "scan s ci =
     (case tryHeader s ci of
        Some (lvl, c, n) \<Rightarrow>
          ([\<lparr> me_type = Header, me_content = c, me_level = Some lvl \<rparr>], ci + n)
      | None \<Rightarrow>
     (case tryBold s ci of
        Some boldContent \<Rightarrow>
          ([\<lparr> me_type = Bold, me_content = boldContent, me_level = None \<rparr>],
           ci + (4 + length boldContent))
      | None \<Rightarrow>
     (case tryItalic s ci of
        Some italicContent \<Rightarrow>
          ([\<lparr> me_type = Italic, me_content = italicContent, me_level = None \<rparr>],
           ci + (2 + length italicContent))
      | None \<Rightarrow>
     (case tryCode s ci of
        Some codeContent \<Rightarrow>
          ([\<lparr> me_type = Code, me_content = codeContent, me_level = None \<rparr>],
           ci + (2 + length codeContent))
      | None \<Rightarrow>
          (let textContent = slice s ci (nextMarkdownIndex s ci)
           in (if textContent \<noteq> []
               then [\<lparr> me_type = Text, me_content = textContent, me_level = None \<rparr>]
               else [],
               nextMarkdownIndex s ci))))))"

partial_function (option) parse_loop ::
  "string \<Rightarrow> MarkdownElement list \<Rightarrow> nat \<Rightarrow> MarkdownElement list option" where
  "parse_loop s elements currentIndex =
     (if currentIndex < length s
      then parse_loop s (elements @ fst (scan s currentIndex)) (snd (scan s currentIndex))
      else Some elements)"

declare parse_loop.simps [code]

definition parseMarkdown :: "string \<Rightarrow> MarkdownElement list option" where
  "parseMarkdown s = parse_loop s [] 0"

section \<open>The paginated renderer: \<open>addFormattedText\<close> of \<open>exportToPdf\<close>\<close>

text \<open>
  The page-based sink (jsPDF) is not part of the repository. What the renderer asks of
  it is taken as a parameter: the page size and the width of a text under a font at a
  font size (\<open>pdf.getTextWidth\<close>, which reads the font set last). The sink's state that
  the renderer changes is modelled: the current font, the font size, the page, and the
  texts drawn. Lengths are exact rationals.
\<close>

datatype FontName = Helvetica | Courier

datatype FontStyle = StyleNormal | StyleBold | StyleItalic | StyleBoldItalic

type_synonym Font = "FontName \<times> FontStyle"

record PdfEnv =
  getTextWidth :: "Font \<Rightarrow> rat \<Rightarrow> string \<Rightarrow> rat"
  pageWidth :: rat
  pageHeight :: rat

record Segment =
  sg_text :: string
  sg_isBold :: bool
  sg_isItalic :: bool
  sg_isCode :: bool

record PlacedText =
  pt_text :: string
  pt_x :: rat
  pt_font :: Font

record PlacedLine =
  pl_page :: nat
  pl_y :: rat
  pl_items :: "PlacedText list"

record RenderState =
  rs_font :: Font
  rs_fontSize :: rat
  rs_page :: nat
  rs_lines :: "PlacedLine list"
  rs_yPosition :: rat
  rs_currentLine :: "Segment list"
  rs_currentLineWidth :: rat

definition margin :: rat where
  "margin = 20"

definition maxWidth :: "PdfEnv \<Rightarrow> rat" where
  "maxWidth env = pageWidth env - margin * 2"

definition fontStyleOf :: "bool \<Rightarrow> bool \<Rightarrow> FontStyle" where
  "fontStyleOf isBold isItalic =
     (if isBold \<and> isItalic then StyleBoldItalic
      else if isBold then StyleBold
      else if isItalic then StyleItalic
      else StyleNormal)"

fun draw_segments ::
  "PdfEnv \<Rightarrow> rat \<Rightarrow> Segment list \<Rightarrow> Font \<times> rat \<times> PlacedText list \<Rightarrow>
   Font \<times> rat \<times> PlacedText list" where
  \<comment> \<open>\<open>currentLine.forEach\<close> in \<open>flushLine\<close>; the state is the sink's font,
      \<open>xPosition\<close> and the texts drawn on the line.\<close>
  "draw_segments env fontSize [] acc = acc"
| "draw_segments env fontSize (segment # rest) (font, xPosition, items) =
     (let font1 = (Helvetica, fontStyleOf (sg_isBold segment) (sg_isItalic segment));
          font2 = (if sg_isCode segment then (Courier, StyleNormal) else font1);
          item = \<lparr> pt_text = sg_text segment, pt_x = xPosition, pt_font = font2 \<rparr>;
          xPosition' = xPosition + getTextWidth env font2 fontSize (sg_text segment);
          font3 = (if sg_isCode segment then (Helvetica, StyleNormal) else font2)
      in draw_segments env fontSize rest (font3, xPosition', items @ [item]))"

definition flushLine :: "PdfEnv \<Rightarrow> rat \<Rightarrow> rat \<Rightarrow> RenderState \<Rightarrow> RenderState" where
  "flushLine env indent lineHeight st =
     (if rs_currentLine st = [] then st
      else (let st1 = (if rs_yPosition st > pageHeight env - 20
                       then st \<lparr> rs_page := rs_page st + 1, rs_yPosition := 30 \<rparr>
                       else st);
                (font', xEnd, items) =
                   draw_segments env (rs_fontSize st1) (rs_currentLine st1)
                     (rs_font st1, margin + indent, [])
            in st1 \<lparr> rs_font := font',
                     rs_lines := rs_lines st1 @
                        [\<lparr> pl_page = rs_page st1, pl_y = rs_yPosition st1, pl_items = items \<rparr>],
                     rs_yPosition := rs_yPosition st1 + lineHeight,
                     rs_currentLine := [],
                     rs_currentLineWidth := 0 \<rparr>))"

function split_spaces :: "string \<Rightarrow> string list" where
  \<comment> \<open>\<open>text.split(/\s+/)\<close>: the separator is a whole run of white space.\<close>
  "split_spaces [] = [[]]"
| "split_spaces (c # cs) =
     (if isWhiteSpace c then [] # split_spaces (dropWhile isWhiteSpace cs)
      else (case split_spaces cs of
              [] \<Rightarrow> [[c]]
            | p # ps \<Rightarrow> (c # p) # ps))"
  by pat_completeness auto
termination
  by (relation "measure length") (auto simp: length_dropWhile_le less_Suc_eq_le)

definition words_of :: "string \<Rightarrow> string list" where
  \<comment> \<open>\<open>text.split(/\s+/).filter(word => word.length > 0)\<close>\<close>
  "words_of s = filter (\<lambda>word. length word > 0) (split_spaces s)"

definition add_word ::
  "PdfEnv \<Rightarrow> rat \<Rightarrow> rat \<Rightarrow> bool \<Rightarrow> bool \<Rightarrow> bool \<Rightarrow> nat \<Rightarrow> string \<Rightarrow> RenderState \<Rightarrow> RenderState" where
  \<comment> \<open>the body of \<open>words.forEach((word, index) => ...)\<close> in \<open>addToLine\<close>\<close>
  "add_word env indent lineHeight isBold isItalic isCode index word st =
     (let wordWithSpace = (if rs_currentLine st \<noteq> [] \<or> index > 0 then '' '' @ word else word);
          st1 = st \<lparr> rs_font := (if isCode then Courier else Helvetica,
                                   fontStyleOf isBold isItalic) \<rparr>;
          wordWidth = getTextWidth env (rs_font st1) (rs_fontSize st1) wordWithSpace
      in if rs_currentLineWidth st1 + wordWidth > maxWidth env - indent \<and> rs_currentLine st1 \<noteq> []
         then (let st2 = flushLine env indent lineHeight st1
               in st2 \<lparr> rs_currentLine := rs_currentLine st2 @
                           [\<lparr> sg_text = word, sg_isBold = isBold, sg_isItalic = isItalic,
                              sg_isCode = isCode \<rparr>],
                        rs_currentLineWidth :=
                           getTextWidth env (rs_font st2) (rs_fontSize st2) word \<rparr>)
         else st1 \<lparr> rs_currentLine := rs_currentLine st1 @
                        [\<lparr> sg_text = wordWithSpace, sg_isBold = isBold, sg_isItalic = isItalic,
                           sg_isCode = isCode \<rparr>],
                     rs_currentLineWidth := rs_currentLineWidth st1 + wordWidth \<rparr>)"

fun add_words ::
  "PdfEnv \<Rightarrow> rat \<Rightarrow> rat \<Rightarrow> bool \<Rightarrow> bool \<Rightarrow> bool \<Rightarrow> nat \<Rightarrow> string list \<Rightarrow> RenderState \<Rightarrow> RenderState" where
  "add_words env indent lineHeight isBold isItalic isCode index [] st = st"
| "add_words env indent lineHeight isBold isItalic isCode index (word # rest) st =
     add_words env indent lineHeight isBold isItalic isCode (index + 1) rest
       (add_word env indent lineHeight isBold isItalic isCode index word st)"

definition addToLine ::
  "PdfEnv \<Rightarrow> rat \<Rightarrow> rat \<Rightarrow> string \<Rightarrow> bool \<Rightarrow> bool \<Rightarrow> bool \<Rightarrow> RenderState \<Rightarrow> RenderState" where
  "addToLine env indent lineHeight s isBold isItalic isCode st =
     add_words env indent lineHeight isBold isItalic isCode 0 (words_of s) st"

definition render_element ::
  "PdfEnv \<Rightarrow> rat \<Rightarrow> rat \<Rightarrow> RenderState \<Rightarrow> MarkdownElement \<Rightarrow> RenderState" where
  \<comment> \<open>the \<open>switch\<close> of \<open>elements.forEach\<close>\<close>
  "render_element env indent lineHeight st element =
     (case me_type element of
        Bold \<Rightarrow> addToLine env indent lineHeight (me_content element) True False False st
      | Italic \<Rightarrow> addToLine env indent lineHeight (me_content element) False True False st
      | Code \<Rightarrow> addToLine env indent lineHeight (me_content element) False False True st
      | Header \<Rightarrow>
          (let st1 = flushLine env indent lineHeight st;
               st2 = addToLine env indent lineHeight (me_content element) True False False st1;
               st3 = flushLine env indent lineHeight st2
           in st3 \<lparr> rs_yPosition := rs_yPosition st3 + 5 \<rparr>)
      | Text \<Rightarrow> addToLine env indent lineHeight (me_content element) False False False st)"

definition addFormattedText ::
  "PdfEnv \<Rightarrow> string \<Rightarrow> rat \<Rightarrow> rat \<Rightarrow> RenderState \<Rightarrow> RenderState option" where
  \<comment> \<open>\<open>currentLine\<close> and \<open>currentLineWidth\<close> are fresh in every call. \<open>None\<close>: the
      tokenizer does not return.\<close>
  "addFormattedText env s fontSize indent st =
     (case parseMarkdown s of
        None \<Rightarrow> None
      | Some elements \<Rightarrow>
          (let lineHeight = fontSize * (6 / 10);
               st0 = st \<lparr> rs_fontSize := fontSize, rs_currentLine := [],
                          rs_currentLineWidth := 0 \<rparr>;
               st1 = foldl (render_element env indent lineHeight) st0 elements;
               st2 = flushLine env indent lineHeight st1
           in Some (st2 \<lparr> rs_yPosition := rs_yPosition st2 + 5 \<rparr>)))"

chapter \<open>Notions the properties are stated with\<close>

section \<open>Candidates, lookups, sources of runs, widths of lines\<close>

definition doubleNewlineCandidate :: "string \<Rightarrow> string list" where
  "doubleNewlineCandidate s = filter nonBlank (split_str ''\<newline>\<newline>'' (normalizeLineEndings s))"

definition singleNewlineCandidate :: "string \<Rightarrow> string list" where
  "singleNewlineCandidate s = filter nonBlank (split_str ''\<newline>'' (normalizeLineEndings s))"

definition lookupFile :: "FileData list \<Rightarrow> string \<Rightarrow> FileData option" where
  "lookupFile files fileId = find (\<lambda>f. fd_id f = fileId) files"

definition is_source :: "MarkdownElement \<Rightarrow> string \<Rightarrow> bool" where
  \<comment> \<open>\<open>src\<close> is the part of the fragment that the tokenizer consumes for the run
      \<open>e\<close>: the content with nothing around it for plain text, \<open>**\<close> around bold,
      \<open>*\<close> around italic, a backtick around code; for a header its \<open>#\<close>
      characters, then the run of white space that the pattern takes after them (at least
      one character, of any kind, line breaks too), then the content.\<close>
  "is_source e src =
     (case me_type e of
        Text \<Rightarrow> src = me_content e
      | Bold \<Rightarrow> src = ''**'' @ me_content e @ ''**''
      | Italic \<Rightarrow> src = ''*'' @ me_content e @ ''*''
      | Code \<Rightarrow> src = [CHR 0x60] @ me_content e @ [CHR 0x60]
      | Header \<Rightarrow>
          (case me_level e of
             None \<Rightarrow> False
           | Some l \<Rightarrow>
               (let ws = take (length src - l - length (me_content e)) (drop l src)
                in ws \<noteq> [] \<and> list_all isWhiteSpace ws \<and>
                   src = replicate l (CHR ''#'') @ ws @ me_content e)))"



inductive run_seq :: "string \<Rightarrow> nat \<Rightarrow> MarkdownElement list \<Rightarrow> bool" for s :: string where
  \<comment> \<open>the elements the loop pushes from \<open>currentIndex = ci\<close> on, pass after pass\<close>
  run_end: "\<not> ci < length s \<Longrightarrow> run_seq s ci []"
| run_step: "ci < length s \<Longrightarrow> run_seq s (snd (scan s ci)) out \<Longrightarrow>
             run_seq s ci (fst (scan s ci) @ out)"





definition line_width :: "PdfEnv \<Rightarrow> rat \<Rightarrow> PlacedLine \<Rightarrow> rat" where
  \<comment> \<open>the measured width of a flushed line: what \<open>xPosition\<close> advanced by\<close>
  "line_width env fontSize pline =
     sum_list (map (\<lambda>p. getTextWidth env (pt_font p) fontSize (pt_text p)) (pl_items pline))"

definition strip_space :: "string \<Rightarrow> string" where
  \<comment> \<open>a drawn text without the space \<open>addToLine\<close> may have put before the word\<close>
  "strip_space t = (case t of [] \<Rightarrow> [] | c # r \<Rightarrow> if c = CHR '' '' then r else t)"

definition line_texts :: "RenderState \<Rightarrow> string list" where
  \<comment> \<open>the texts drawn so far, line after line\<close>
  "line_texts st = concat (map (\<lambda>l. map pt_text (pl_items l)) (rs_lines st))"

definition all_texts :: "RenderState \<Rightarrow> string list" where
  \<comment> \<open>the texts drawn so far and those waiting on the current line\<close>
  "all_texts st = line_texts st @ map sg_text (rs_currentLine st)"

definition seg_font :: "Segment \<Rightarrow> Font" where
  \<comment> \<open>the font \<open>flushLine\<close> draws a segment under\<close>
  "seg_font g = (if sg_isCode g then (Courier, StyleNormal)
                 else (Helvetica, fontStyleOf (sg_isBold g) (sg_isItalic g)))"

definition own_width :: "PdfEnv \<Rightarrow> rat \<Rightarrow> (Font \<times> string) list \<Rightarrow> rat" where
  \<comment> \<open>the width of texts, each measured under its own font\<close>
  "own_width env fs xs = sum_list (map (\<lambda>x. getTextWidth env (fst x) fs (snd x)) xs)"

definition fits_as_tracked :: "PdfEnv \<Rightarrow> rat \<Rightarrow> rat \<Rightarrow> (Font \<times> string) list \<Rightarrow> bool" where
  \<comment> \<open>a line of more than one text fits the usable width when its first text is measured
      under some font of the sink and the others under their own\<close>
  "fits_as_tracked env fs usable xs =
     (case xs of
        [] \<Rightarrow> True
      | x # rest \<Rightarrow> rest = [] \<or>
          (\<exists>f. getTextWidth env f fs (snd x) + own_width env fs rest \<le> usable))"

definition line_pairs :: "PlacedLine \<Rightarrow> (Font \<times> string) list" where
  "line_pairs l = map (\<lambda>p. (pt_font p, pt_text p)) (pl_items l)"

definition seg_pairs :: "Segment list \<Rightarrow> (Font \<times> string) list" where
  "seg_pairs gs = map (\<lambda>g. (seg_font g, sg_text g)) gs"

definition lines_fit :: "PdfEnv \<Rightarrow> rat \<Rightarrow> rat \<Rightarrow> RenderState \<Rightarrow> bool" where
  "lines_fit env fs usable st =
     list_all (\<lambda>l. fits_as_tracked env fs usable (line_pairs l)) (rs_lines st)"

definition tracked_inv :: "PdfEnv \<Rightarrow> rat \<Rightarrow> rat \<Rightarrow> RenderState \<Rightarrow> bool" where
  "tracked_inv env fs usable st =
     (rs_fontSize st = fs \<and> lines_fit env fs usable st \<and>
      (case rs_currentLine st of
         [] \<Rightarrow> rs_currentLineWidth st = 0
       | g # gs \<Rightarrow>
           (\<exists>f. rs_currentLineWidth st =
                  getTextWidth env f fs (sg_text g) + own_width env fs (seg_pairs gs)) \<and>
           (gs = [] \<or> rs_currentLineWidth st \<le> usable)))"

section \<open>Example data\<close>

definition demoFile :: FileData where
  "demoFile = \<lparr> fd_id = ''1'', fd_name = ''a.md'',
     fd_content = ''One a.b here\<newline>\<newline>Intro | A.B x | no | a.b a.b\<newline>\<newline>axb'',
     fd_size = 47, fd_type = ''text/markdown'' \<rparr>"

definition demoState :: AppState where
  "demoState = \<lparr> st_files = [demoFile], st_searchResults = [], st_searchTerm = [],
                 st_isSearching = False, st_debugInfo = [] \<rparr>"


definition unitsOf :: "Font \<Rightarrow> char \<Rightarrow> rat" where
  \<comment> \<open>an example metric in 1/1000 of the font size: every Courier glyph 600; Helvetica's
      space 278, \<open>i\<close> 222 (278 in bold), any other glyph 556.\<close>
  "unitsOf font c =
     (if fst font = Courier then 600
      else if c = CHR '' '' then 278
      else if c = CHR ''i'' then
        (if snd font = StyleBold \<or> snd font = StyleBoldItalic then 278 else 222)
      else 556)"

definition demoEnv :: "rat \<Rightarrow> PdfEnv" where
  \<comment> \<open>a page of the given width, 297 high, in millimetres; a text's width is its units
      times the font size, in points, converted to millimetres.\<close>
  "demoEnv w = \<lparr> getTextWidth = (\<lambda>font fontSize s.
                  sum_list (map (unitsOf font) s) * fontSize / 1000 * (254 / 720)),
               pageWidth = w, pageHeight = 297 \<rparr>"

definition startState :: RenderState where
  "startState = \<lparr> rs_font = (Helvetica, StyleNormal), rs_fontSize = 16, rs_page = 0,
                  rs_lines = [], rs_yPosition = 30, rs_currentLine = [],
                  rs_currentLineWidth = 0 \<rparr>"

definition codeParagraph :: string where
  "codeParagraph = [CHR 0x60] @ concat (replicate 13 ''iiiiiiiiii '') @ ''iiiiiiiiii'' @ [CHR 0x60]"

chapter \<open>Properties\<close>

section \<open>The section restructurer\<close>

lemma split_str_nonempty: "split_str sep s \<noteq> []"
  by (induction s) (auto split: list.splits)

lemma length_split_char: "length (split_str [d] s) = Suc (count_list s d)"
proof (induction s)
  case Nil
  then show ?case by simp
next
  case (Cons c cs)
  then show ?case
    using split_str_nonempty [of "[d]" cs]
    by (cases "split_str [d] cs") auto
qed

lemma join_split_char: "join_str [d] (split_str [d] s) = s"
proof (induction s)
  case Nil
  then show ?case by simp
next
  case (Cons c cs)
  obtain p ps where sp: "split_str [d] cs = p # ps"
    using split_str_nonempty [of "[d]" cs] by (cases "split_str [d] cs") auto
  show ?case
  proof (cases "c = d")
    case True
    with Cons sp show ?thesis by simp
  next
    case False
    with Cons sp show ?thesis by (cases ps) auto
  qed
qed

lemma split_char_pieces: "p \<in> set (split_str [d] s) \<Longrightarrow> d \<notin> set p"
proof (induction s arbitrary: p)
  case Nil
  then show ?case by simp
next
  case (Cons c cs)
  then show ?case
    using split_str_nonempty [of "[d]" cs]
    by (cases "split_str [d] cs") (auto split: if_splits)
qed

lemma includes_char: "includes_str s [d] \<longleftrightarrow> d \<in> set s"
  by (induction s) auto

lemma select_sentences_filter:
  "fst (select_sentences t xs (parts, sel)) =
     parts @ filter (\<lambda>s. includes_str (toLowerCase s) t) xs"
  by (induction xs arbitrary: parts sel) auto

lemma count_two_mem: "2 \<le> count_list s d \<Longrightarrow> d \<in> set s"
  by (metis count_notin not_numeral_le_zero)

text \<open>
  Claim C2. A paragraph with at least two pipe characters is rewritten to: the trimmed
  first section, kept whatever it holds, followed in the original order by exactly the
  trimmed later sections whose lower-cased form contains the normalized term (the
  trimmed, lower-cased search term), joined by single spaces. The sections are the
  pieces \<open>split_str ''|''\<close> yields (\<open>join_split_char\<close>, \<open>split_char_pieces\<close>).
\<close>

theorem restructure_triggered:
  assumes "2 \<le> count_list p (CHR ''|'')"
  shows "fst (processFoundParagraph p t f i) =
    join_str '' '' (trim (hd (split_str ''|'' p)) #
       filter (\<lambda>s. includes_str (toLowerCase s) (toLowerCase (trim t)))
         (map trim (tl (split_str ''|'' p))))"
proof -
  have ne: "split_str ''|'' p \<noteq> []" by (rule split_str_nonempty)
  have inc: "includes_str p ''|''" using assms by (simp add: includes_char count_two_mem)
  have len: "3 \<le> length (split_str ''|'' p)" using assms by (simp add: length_split_char)
  show ?thesis
    using ne inc len
    by (simp add: processFoundParagraph_def Let_def split_beta select_sentences_filter
          hd_map map_tl)
qed

theorem restructure_triggered_witness:
  "2 \<le> count_list ''Intro | has searchterm here | no match | also searchterm'' (CHR ''|'') \<and>
   fst (processFoundParagraph ''Intro | has searchterm here | no match | also searchterm''
          '' SearchTerm '' ''doc.md'' 1) = ''Intro has searchterm here also searchterm''"
proof -
  have h: "2 \<le> count_list ''Intro | has searchterm here | no match | also searchterm'' (CHR ''|'')"
    by simp
  have "fst (processFoundParagraph ''Intro | has searchterm here | no match | also searchterm''
          '' SearchTerm '' ''doc.md'' 1) =
        join_str '' '' (trim (hd (split_str ''|''
            ''Intro | has searchterm here | no match | also searchterm'')) #
          filter (\<lambda>s. includes_str (toLowerCase s) (toLowerCase (trim '' SearchTerm '')))
            (map trim (tl (split_str ''|''
               ''Intro | has searchterm here | no match | also searchterm''))))"
    by (rule restructure_triggered [OF h])
  also have "\<dots> = ''Intro has searchterm here also searchterm''"
    by code_simp
  finally show ?thesis using h by simp
qed

text \<open>
  Claim C3. A paragraph with fewer than two pipe characters comes back unchanged,
  whatever the term: nothing is trimmed or normalized.
\<close>

theorem restructure_untriggered:
  "count_list p (CHR ''|'') < 2 \<Longrightarrow> fst (processFoundParagraph p t f i) = p"
  by (simp add: processFoundParagraph_def Let_def length_split_char)

theorem restructure_untriggered_witness:
  "count_list ''  Left | Right  '' (CHR ''|'') < 2 \<and>
   fst (processFoundParagraph ''  Left | Right  '' ''left'' ''doc.md'' 1) = ''  Left | Right  ''"
proof -
  have h: "count_list ''  Left | Right  '' (CHR ''|'') < 2" by simp
  show ?thesis
    using h restructure_untriggered [OF h, of "''left''" "''doc.md''" 1] by simp
qed

section \<open>The segmentation selector\<close>

lemma splitMethods_nth:
  "sm_result (splitMethods (normalizeLineEndings s) ! 0) = doubleNewlineCandidate s"
  "sm_result (splitMethods (normalizeLineEndings s) ! Suc 0) = singleNewlineCandidate s"
  "sm_name (splitMethods n ! 0) = ''Double newline ('' @ [CHR 0x5C, CHR ''n'', CHR 0x5C, CHR ''n''] @ '')''"
  "sm_name (splitMethods n ! Suc 0) = ''Single newline ('' @ [CHR 0x5C, CHR ''n''] @ '')''"
  by (simp_all add: splitMethods_def doubleNewlineCandidate_def singleNewlineCandidate_def)

text \<open>
  Claim C1. The selector returns the double-line-break candidate by default; it takes
  the single-line-break candidate only when the double one has fewer than 3 paragraphs
  and the single one strictly more; and it goes back to the double one when the
  candidate chosen so far has more than 50 paragraphs of which one is shorter than 20
  characters. (When the double candidate is the one chosen so far, going back to it
  changes nothing.)
\<close>

theorem selector_precedence:
  "fst (splitTextIntoParagraphs s) =
     (let d = doubleNewlineCandidate s; sg = singleNewlineCandidate s
      in if length d < 3 \<and> length d < length sg
         then (if 50 < length sg \<and> list_ex (\<lambda>p. length p < 20) sg then d else sg)
         else d)"
  by (simp add: splitTextIntoParagraphs_def Let_def splitMethods_nth)

theorem selector_precedence_witness:
  "fst (splitTextIntoParagraphs (concat (replicate 51 ''ab\<newline>''))) =
     [concat (replicate 51 ''ab\<newline>'')] \<and>
   length (doubleNewlineCandidate (concat (replicate 51 ''ab\<newline>''))) = 1 \<and>
   length (singleNewlineCandidate (concat (replicate 51 ''ab\<newline>''))) = 51"
proof -
  have "fst (splitTextIntoParagraphs (concat (replicate 51 ''ab\<newline>''))) =
     (let d = doubleNewlineCandidate (concat (replicate 51 ''ab\<newline>''));
          sg = singleNewlineCandidate (concat (replicate 51 ''ab\<newline>''))
      in if length d < 3 \<and> length d < length sg
         then (if 50 < length sg \<and> list_ex (\<lambda>p. length p < 20) sg then d else sg)
         else d)"
    by (rule selector_precedence)
  also have "\<dots> = [concat (replicate 51 ''ab\<newline>'')]"
    by code_simp
  finally have a: "fst (splitTextIntoParagraphs (concat (replicate 51 ''ab\<newline>''))) =
     [concat (replicate 51 ''ab\<newline>'')]" .
  have b: "length (doubleNewlineCandidate (concat (replicate 51 ''ab\<newline>''))) = 1"
    by code_simp
  have c: "length (singleNewlineCandidate (concat (replicate 51 ''ab\<newline>''))) = 51"
    by code_simp
  show ?thesis using a b c by simp
qed

section \<open>The search\<close>

lemma escaped_syntax: "set escapedChars = set syntaxCharacters"
  by (auto simp: escapedChars_def syntaxCharacters_def)

lemma regexp_literal_escape: "regexp_literal (escapeRegExp t) = Some t"
proof (induction t)
  case Nil
  then show ?case by (simp add: escapeRegExp_def)
next
  case (Cons c t)
  have bs: "CHR 0x5C \<in> set syntaxCharacters" by (simp add: syntaxCharacters_def)
  show ?case
  proof (cases "c \<in> set syntaxCharacters")
    case True
    with Cons show ?thesis by (simp add: escapeRegExp_def escaped_syntax)
  next
    case False
    with bs have "c \<noteq> CHR 0x5C" by auto
    with False Cons show ?thesis by (simp add: escapeRegExp_def escaped_syntax)
  qed
qed

lemma paragraphOccurrences_literal:
  "paragraphOccurrences p t = count_matches t (toLowerCase p)"
  by (simp add: paragraphOccurrences_def regexp_literal_escape)

lemma count_matches_pos:
  "lit \<noteq> [] \<Longrightarrow> 0 < count_matches lit s \<longleftrightarrow> includes_str s lit"
  by (induction lit s rule: count_matches.induct) auto

lemma processed_restructure: "fst (processFoundParagraph p t f i) = restructure p t"
  by (simp add: restructure_def processFoundParagraph_def Let_def split_beta)

lemma scan_paragraphs_found:
  "fst (scan_paragraphs tm pt fn i ps (found, occ, dbg)) =
     found @ map (\<lambda>p. restructure p tm) (filter (\<lambda>p. includes_str (toLowerCase p) pt) ps)"
  by (induction ps arbitrary: i found occ dbg)
     (auto simp: split_beta Let_def processed_restructure)

lemma scan_paragraphs_count:
  "fst (snd (scan_paragraphs tm pt fn i ps (found, occ, dbg))) =
     occ + sum_list (map (\<lambda>p. paragraphOccurrences p pt)
                       (filter (\<lambda>p. includes_str (toLowerCase p) pt) ps))"
  by (induction ps arbitrary: i found occ dbg) (auto simp: split_beta Let_def)

lemma toLowerCase_Nil: "toLowerCase s = [] \<longleftrightarrow> s = []"
  by (simp add: toLowerCase_def)

text \<open>
  Claim C4. For a term that is not blank, the found paragraphs of a document are the
  restructured forms of exactly the paragraphs whose occurrence count, taken on the
  original paragraph, is positive, in order. The count is the number of matches of the
  normalized term as a literal in the lower-cased paragraph, scanned from left to right
  without overlap (the escaped pattern stands for the term itself, whatever characters
  it holds), and it is 0 for a paragraph that does not contain the term.
\<close>

theorem found_iff_counted:
  assumes "trim tm \<noteq> []"
  shows "sr_foundParagraphs (fst (search_file stringify file tm (toLowerCase (trim tm)) dbg)) =
           map (\<lambda>p. restructure p tm)
             (filter (\<lambda>p. 0 < paragraphOccurrences p (toLowerCase (trim tm)))
                (fst (splitTextIntoParagraphs (fd_content file)))) \<and>
         (\<forall>p. paragraphOccurrences p (toLowerCase (trim tm)) =
                count_matches (toLowerCase (trim tm)) (toLowerCase p)) \<and>
         (\<forall>p. \<not> includes_str (toLowerCase p) (toLowerCase (trim tm)) \<longrightarrow>
                paragraphOccurrences p (toLowerCase (trim tm)) = 0)"
proof -
  have ne: "toLowerCase (trim tm) \<noteq> []" using assms by (simp add: toLowerCase_Nil)
  have iff: "\<And>p. 0 < paragraphOccurrences p (toLowerCase (trim tm)) \<longleftrightarrow>
                 includes_str (toLowerCase p) (toLowerCase (trim tm))"
    using count_matches_pos [OF ne] by (simp add: paragraphOccurrences_literal)
  have found: "sr_foundParagraphs (fst (search_file stringify file tm (toLowerCase (trim tm)) dbg)) =
           map (\<lambda>p. restructure p tm)
             (filter (\<lambda>p. 0 < paragraphOccurrences p (toLowerCase (trim tm)))
                (fst (splitTextIntoParagraphs (fd_content file))))"
    by (simp add: search_file_def split_beta Let_def scan_paragraphs_found iff)
  have zero: "\<forall>p. \<not> includes_str (toLowerCase p) (toLowerCase (trim tm)) \<longrightarrow>
                paragraphOccurrences p (toLowerCase (trim tm)) = 0"
    using iff by auto
  show ?thesis using found zero by (simp add: paragraphOccurrences_literal)
qed

theorem found_iff_counted_witness:
  "trim '' A.b '' \<noteq> [] \<and>
   sr_foundParagraphs (fst (search_file (\<lambda>_. []) demoFile '' A.b '' (toLowerCase (trim '' A.b '')) [])) =
     [''One a.b here'', ''Intro A.B x a.b a.b''] \<and>
   paragraphOccurrences ''Intro | A.B x | no | a.b a.b'' ''a.b'' = 3 \<and>
   paragraphOccurrences ''axb'' ''a.b'' = 0"
proof -
  have h: "trim '' A.b '' \<noteq> []" by code_simp
  note c4 = found_iff_counted [OF h, of "\<lambda>_. []" demoFile "[]"]
  have "sr_foundParagraphs (fst (search_file (\<lambda>_. []) demoFile '' A.b '' (toLowerCase (trim '' A.b '')) [])) =
     map (\<lambda>p. restructure p '' A.b '')
             (filter (\<lambda>p. 0 < paragraphOccurrences p (toLowerCase (trim '' A.b '')))
                (fst (splitTextIntoParagraphs (fd_content demoFile))))"
    using c4 by blast
  also have "\<dots> = [''One a.b here'', ''Intro A.B x a.b a.b'']"
    by code_simp
  finally have a: "sr_foundParagraphs (fst (search_file (\<lambda>_. []) demoFile '' A.b '' (toLowerCase (trim '' A.b '')) [])) =
     [''One a.b here'', ''Intro A.B x a.b a.b'']" .
  have b: "paragraphOccurrences ''Intro | A.B x | no | a.b a.b'' ''a.b'' = 3" by code_simp
  have c: "paragraphOccurrences ''axb'' ''a.b'' = 0" by code_simp
  show ?thesis using h a b c by simp
qed

lemma search_files_skip:
  "search_files stringify files tm pt ids acc =
   search_files stringify files tm pt (filter (\<lambda>i. lookupFile files i \<noteq> None) ids) acc"
  by (induction ids arbitrary: acc)
     (auto simp: lookupFile_def split_beta Let_def split: option.splits)

lemma search_files_results:
  "map sr_fileName (fst (search_files stringify files tm pt ids (results, dbg))) =
   map sr_fileName results @ map fd_name (List.map_filter (lookupFile files) ids)"
  by (induction ids arbitrary: results dbg)
     (auto simp: lookupFile_def split_beta Let_def List.map_filter_simps search_file_def split: option.splits)

text \<open>
  Claim C8, as the code has it. An identifier with no file is skipped without a trace:
  the results and the diagnostic entries of a search are those of the search over the
  identifiers that have a file, one result per such identifier, in the order asked.
  The missing identifier gets no diagnostic entry, and the files after it are still
  searched.
\<close>

theorem missing_file_skipped:
  assumes "trim tm \<noteq> []" and "ids \<noteq> []"
  shows "st_searchResults (handleSearch stringify st tm ids) =
           fst (search_files stringify (st_files st) tm (toLowerCase (trim tm))
                  (filter (\<lambda>i. lookupFile (st_files st) i \<noteq> None) ids) ([], [])) \<and>
         st_debugInfo (handleSearch stringify st tm ids) =
           snd (search_files stringify (st_files st) tm (toLowerCase (trim tm))
                  (filter (\<lambda>i. lookupFile (st_files st) i \<noteq> None) ids) ([], [])) \<and>
         map sr_fileName (st_searchResults (handleSearch stringify st tm ids)) =
           map fd_name (List.map_filter (lookupFile (st_files st)) ids)"
proof -
  have eq: "search_files stringify (st_files st) tm (toLowerCase (trim tm)) ids ([], []) =
        search_files stringify (st_files st) tm (toLowerCase (trim tm))
                  (filter (\<lambda>i. lookupFile (st_files st) i \<noteq> None) ids) ([], [])"
    by (rule search_files_skip)
  have names: "map sr_fileName (fst (search_files stringify (st_files st) tm
                 (toLowerCase (trim tm)) ids ([], []))) =
               map fd_name (List.map_filter (lookupFile (st_files st)) ids)"
    using search_files_results [of stringify "st_files st" tm "toLowerCase (trim tm)" ids "[]" "[]"]
    by simp
  have r: "st_searchResults (handleSearch stringify st tm ids) =
           fst (search_files stringify (st_files st) tm (toLowerCase (trim tm)) ids ([], []))"
    using assms by (simp add: handleSearch_def Let_def split_beta)
  have d: "st_debugInfo (handleSearch stringify st tm ids) =
           snd (search_files stringify (st_files st) tm (toLowerCase (trim tm)) ids ([], []))"
    using assms by (simp add: handleSearch_def Let_def split_beta)
  show ?thesis using eq names r d by simp
qed

theorem missing_file_skipped_witness:
  "trim ''a.b'' \<noteq> [] \<and> [''missing'', ''1''] \<noteq> [] \<and>
   map sr_fileName (st_searchResults (handleSearch (\<lambda>_. []) demoState ''a.b'' [''missing'', ''1''])) = [''a.md''] \<and>
   st_debugInfo (handleSearch (\<lambda>_. []) demoState ''a.b'' [''missing'', ''1'']) =
   st_debugInfo (handleSearch (\<lambda>_. []) demoState ''a.b'' [''1''])"
proof -
  have h1: "trim ''a.b'' \<noteq> []" by code_simp
  have h2: "[''missing'', ''1''] \<noteq> ([] :: string list)" by simp
  have h3: "[''1''] \<noteq> ([] :: string list)" by simp
  note a = missing_file_skipped [OF h1 h2, of "\<lambda>_. []" demoState]
  note b = missing_file_skipped [OF h1 h3, of "\<lambda>_. []" demoState]
  have f1: "filter (\<lambda>i. lookupFile (st_files demoState) i \<noteq> None) [''missing'', ''1''] = [''1'']"
    by code_simp
  have f2: "filter (\<lambda>i. lookupFile (st_files demoState) i \<noteq> None) [''1''] = [''1'']"
    by code_simp
  have f3: "map fd_name (List.map_filter (lookupFile (st_files demoState)) [''missing'', ''1'']) = [''a.md'']"
    by code_simp
  note a' = a [unfolded f1 f3]
  note b' = b [unfolded f2]
  have n: "map sr_fileName (st_searchResults
             (handleSearch (\<lambda>_. []) demoState ''a.b'' [''missing'', ''1''])) = [''a.md'']"
    using a' by blast
  have d: "st_debugInfo (handleSearch (\<lambda>_. []) demoState ''a.b'' [''missing'', ''1'']) =
           st_debugInfo (handleSearch (\<lambda>_. []) demoState ''a.b'' [''1''])"
    using a' b' by (simp only:)
  show ?thesis using h1 h2 n d by blast
qed

text \<open>
  The claim as written fails: a search for one identifier that has no file records no
  diagnostic entry at all (and no result).
\<close>

theorem missing_file_no_diagnostic:
  "st_debugInfo (handleSearch (\<lambda>_. []) demoState ''a.b'' [''missing'']) = [] \<and>
   st_searchResults (handleSearch (\<lambda>_. []) demoState ''a.b'' [''missing'']) = []"
  by code_simp

section \<open>The tokenizer\<close>

lemma indexOf_Some:
  "indexOf s sub = Some n \<Longrightarrow> n + length sub \<le> length s \<and> take (length sub) (drop n s) = sub"
proof (induction s arbitrary: n)
  case Nil
  then show ?case by (auto split: if_splits)
next
  case (Cons c cs)
  show ?case
  proof (cases "prefix sub (c # cs)")
    case True
    then obtain zs where zs: "c # cs = sub @ zs" by (auto simp: prefix_def)
    from True Cons.prems have "n = 0" by simp
    moreover have "length sub \<le> length (c # cs)" using True by (rule prefix_length_le)
    moreover have "take (length sub) (c # cs) = sub" unfolding zs by simp
    ultimately show ?thesis by simp
  next
    case False
    with Cons.prems obtain m where m: "indexOf cs sub = Some m" "n = Suc m" by auto
    from Cons.IH [OF m(1)] m(2) show ?thesis by simp
  qed
qed


lemma headingText_Some:
  assumes "headingText r = Some c"
  shows "c \<noteq> []" and "take (length c) r = c" and "length c \<le> length r"
    and "list_all (\<lambda>x. \<not> isLineTerminator x) c"
    and "drop (length c) r = [] \<or> hd (drop (length c) r) = CHR 0x0A"
proof -
  from assms have c: "c = takeWhile (\<lambda>x. \<not> isLineTerminator x) r" and ne: "c \<noteq> []"
    and after: "case drop (length c) r of [] \<Rightarrow> True | x # _ \<Rightarrow> x = CHR 0x0A"
    by (auto simp: headingText_def Let_def split: if_splits)
  show "c \<noteq> []" by (rule ne)
  have r: "r = c @ dropWhile (\<lambda>x. \<not> isLineTerminator x) r" unfolding c by simp
  show "take (length c) r = c" by (subst r) simp
  show "length c \<le> length r" unfolding c by (rule length_takeWhile_le)
  show "list_all (\<lambda>x. \<not> isLineTerminator x) c"
    unfolding c list_all_iff by (auto dest: set_takeWhileD)
  show "drop (length c) r = [] \<or> hd (drop (length c) r) = CHR 0x0A"
    using after by (cases "drop (length c) r") auto
qed

lemma headingAfterSpaces_Some:
  "headingAfterSpaces w r = Some (w', c) \<Longrightarrow> 1 \<le> w' \<and> w' \<le> w \<and> headingText (drop w' r) = Some c"
  by (induction w) (auto split: option.splits)

lemma hashes_prefix: "takeWhile (\<lambda>c. c = CHR ''#'') s = replicate (length (takeWhile (\<lambda>c. c = CHR ''#'') s)) (CHR ''#'')"
  by (induction s) auto

lemma take_takeWhile_le: "n \<le> length (takeWhile P xs) \<Longrightarrow> list_all P (take n xs)"
  by (induction xs arbitrary: n) (auto simp: take_Cons' split: if_splits)

lemma headerMatch_Some:
  assumes "headerMatch s = Some (h, c, n)"
  shows "\<exists>ws. 1 \<le> h \<and> h \<le> 6 \<and> ws \<noteq> [] \<and> list_all isWhiteSpace ws \<and> c \<noteq> [] \<and>
              list_all (\<lambda>x. \<not> isLineTerminator x) c \<and>
              n = h + length ws + length c \<and> n \<le> length s \<and>
              take n s = replicate h (CHR ''#'') @ ws @ c \<and>
              (drop n s = [] \<or> hd (drop n s) = CHR 0x0A)"
proof -
  define r where "r = drop h s"
  from assms have h: "h = length (takeWhile (\<lambda>c. c = CHR ''#'') s)" "1 \<le> h" "h \<le> 6"
    by (auto simp: headerMatch_def Let_def split: if_splits option.splits)
  from assms h obtain w where w: "headingAfterSpaces (length (takeWhile isWhiteSpace r)) r = Some (w, c)"
      and n: "n = h + w + length c"
    by (auto simp: headerMatch_def Let_def r_def split: if_splits option.splits)
  from headingAfterSpaces_Some [OF w]
  have w1: "1 \<le> w" and w2: "w \<le> length (takeWhile isWhiteSpace r)"
    and ht: "headingText (drop w r) = Some c" by auto
  note hs = headingText_Some [OF ht]
  define ws where "ws = take w r"
  have hlen: "h \<le> length s" unfolding h(1) by (rule length_takeWhile_le)
  have wlen: "w \<le> length r" using w2 length_takeWhile_le [of isWhiteSpace r] by linarith
  have ws_ne: "ws \<noteq> []" using w1 wlen by (auto simp: ws_def)
  have ws_sp: "list_all isWhiteSpace ws" unfolding ws_def using w2 by (rule take_takeWhile_le)
  have lws: "length ws = w" using wlen by (simp add: ws_def)
  have s1: "s = replicate h (CHR ''#'') @ r"
  proof -
    have "s = takeWhile (\<lambda>c. c = CHR ''#'') s @ dropWhile (\<lambda>c. c = CHR ''#'') s" by simp
    also have "dropWhile (\<lambda>c. c = CHR ''#'') s = r"
      unfolding r_def h(1) by (simp add: dropWhile_eq_drop)
    finally show ?thesis using hashes_prefix [of s] h(1) by simp
  qed
  have r1: "r = ws @ drop w r" by (simp add: ws_def)
  have r2: "drop w r = c @ drop (length c) (drop w r)"
    using hs(2) by (metis append_take_drop_id)
  have s2: "s = replicate h (CHR ''#'') @ ws @ c @ drop (length c) (drop w r)"
    using s1 r1 r2 by metis
  have "length s = h + w + length c + length (drop (length c) (drop w r))"
    by (subst s2) (simp add: lws)
  then have nle: "n \<le> length s" using n by simp
  have tk: "take n s = replicate h (CHR ''#'') @ ws @ c"
    by (subst s2) (simp add: n lws)
  have dr: "drop n s = drop (length c) (drop w r)"
    by (subst s2) (simp add: n lws)
  show ?thesis
    using h(2,3) ws_ne ws_sp hs(1,4,5) n nle tk dr lws by auto
qed

lemma delimited:
  assumes ci: "ci < length s" and op: "take m (drop ci s) = opn" and m: "length opn = m"
    and ix: "indexOf (drop (ci + m) s) cls = Some e"
  shows "ci + (m + e + length cls) \<le> length s"
    and "slice s ci (ci + (m + e + length cls)) = opn @ take e (drop (ci + m) s) @ cls"
    and "length (take e (drop (ci + m) s)) = e"
proof -
  define R where "R = drop (ci + m) s"
  from indexOf_Some [OF ix]
  have le: "e + length cls \<le> length R" and tk: "take (length cls) (drop e R) = cls"
    by (auto simp: R_def)
  have mlen: "ci + m \<le> length s"
  proof -
    have "length (take m (drop ci s)) = m" using op m by simp
    then have "min (length s - ci) m = m" by simp
    with ci show ?thesis by linarith
  qed
  have d: "drop ci s = opn @ R"
  proof -
    have "drop ci s = take m (drop ci s) @ drop m (drop ci s)"
      by (simp only: append_take_drop_id)
    also have "drop m (drop ci s) = R" by (simp add: R_def add.commute)
    finally show ?thesis using op by simp
  qed
  show a: "ci + (m + e + length cls) \<le> length s"
    using le mlen by (simp add: R_def)
  show "length (take e (drop (ci + m) s)) = e" using le by (simp add: R_def)
  then have le': "length (take e R) = e" by (simp add: R_def)
  have "slice s ci (ci + (m + e + length cls)) = take (m + e + length cls) (opn @ R)"
    by (simp add: slice_def d)
  also have "\<dots> = opn @ take (e + length cls) R" using m by simp
  also have "take (e + length cls) R = take e R @ cls"
    by (simp add: take_add tk)
  finally show "slice s ci (ci + (m + e + length cls)) = opn @ take e (drop (ci + m) s) @ cls"
    by (simp add: R_def)
qed

lemma char_at_take1: "char_at s ci = Some x \<Longrightarrow> take 1 (drop ci s) = [x]"
  by (auto simp: char_at_def take_Suc hd_drop_conv_nth split: if_splits)

lemma tryHeader_source:
  assumes "ci < length s" and "tryHeader s ci = Some (l, c, n)"
  shows "ci < ci + n" and "ci + n \<le> length s"
    and "is_source \<lparr> me_type = Header, me_content = c, me_level = Some l \<rparr> (slice s ci (ci + n))"
    and "c \<noteq> []"
proof -
  from assms(2) have hm: "headerMatch (drop ci s) = Some (l, c, n)"
    by (simp add: tryHeader_def split: if_splits)
  from headerMatch_Some [OF hm] obtain ws where
    ws: "1 \<le> l" "ws \<noteq> []" "list_all isWhiteSpace ws" "c \<noteq> []"
      "n = l + length ws + length c" "n \<le> length (drop ci s)"
      "take n (drop ci s) = replicate l (CHR ''#'') @ ws @ c"
    by blast
  show "ci < ci + n" using ws(1,5) by simp
  show "ci + n \<le> length s" using ws(6) assms(1) by simp
  show "c \<noteq> []" by (rule ws(4))
  have "slice s ci (ci + n) = replicate l (CHR ''#'') @ ws @ c"
    using ws(7) by (simp add: slice_def)
  then show "is_source \<lparr> me_type = Header, me_content = c, me_level = Some l \<rparr> (slice s ci (ci + n))"
    using ws(2,3) by (simp add: is_source_def Let_def)
qed

lemma tryBold_source:
  assumes "ci < length s" and "tryBold s ci = Some b"
  shows "ci + (4 + length b) \<le> length s"
    and "is_source \<lparr> me_type = Bold, me_content = b, me_level = None \<rparr>
           (slice s ci (ci + (4 + length b)))"
    and "b \<noteq> []"
proof -
  from assms(2) obtain e where op: "take 2 (drop ci s) = ''**''"
    and ix: "indexOf (drop (ci + 2) s) ''**'' = Some e" and e: "0 < e"
    and b: "b = take e (drop (ci + 2) s)"
    by (auto simp: tryBold_def slice_def Let_def split: if_splits option.splits)
  have l2: "length ''**'' = 2" by simp
  note d = delimited [OF assms(1) op l2 ix]
  have lb: "length b = e" using d(3) b by simp
  have eq: "ci + (4 + length b) = ci + (2 + e + length ''**'')" using lb by simp
  show "ci + (4 + length b) \<le> length s" unfolding eq by (rule d(1))
  show "b \<noteq> []" using lb e by auto
  have "slice s ci (ci + (4 + length b)) = ''**'' @ b @ ''**''"
    using d(2) by (simp only: eq b [symmetric])
  then show "is_source \<lparr> me_type = Bold, me_content = b, me_level = None \<rparr>
           (slice s ci (ci + (4 + length b)))"
    by (simp add: is_source_def)
qed

lemma tryItalic_source:
  assumes "ci < length s" and "tryItalic s ci = Some b"
  shows "ci + (2 + length b) \<le> length s"
    and "is_source \<lparr> me_type = Italic, me_content = b, me_level = None \<rparr>
           (slice s ci (ci + (2 + length b)))"
    and "b \<noteq> []"
proof -
  from assms(2) obtain e where c0: "char_at s ci = Some (CHR ''*'')"
    and ix: "indexOf (drop (ci + 1) s) ''*'' = Some e" and e: "0 < e"
    and b: "b = take e (drop (ci + 1) s)"
    by (auto simp: tryItalic_def slice_def Let_def split: if_splits option.splits)
  have op: "take 1 (drop ci s) = ''*''" using c0 by (rule char_at_take1)
  have l1: "length ''*'' = 1" by simp
  note d = delimited [OF assms(1) op l1 ix]
  have lb: "length b = e" using d(3) b by simp
  have eq: "ci + (2 + length b) = ci + (1 + e + length ''*'')" using lb by simp
  show "ci + (2 + length b) \<le> length s" unfolding eq by (rule d(1))
  show "b \<noteq> []" using lb e by auto
  have "slice s ci (ci + (2 + length b)) = ''*'' @ b @ ''*''"
    using d(2) by (simp only: eq b [symmetric])
  then show "is_source \<lparr> me_type = Italic, me_content = b, me_level = None \<rparr>
           (slice s ci (ci + (2 + length b)))"
    by (simp add: is_source_def)
qed

lemma tryCode_source:
  assumes "ci < length s" and "tryCode s ci = Some b"
  shows "ci + (2 + length b) \<le> length s"
    and "is_source \<lparr> me_type = Code, me_content = b, me_level = None \<rparr>
           (slice s ci (ci + (2 + length b)))"
    and "b \<noteq> []"
proof -
  from assms(2) obtain e where c0: "char_at s ci = Some (CHR 0x60)"
    and ix: "indexOf (drop (ci + 1) s) [CHR 0x60] = Some e" and e: "0 < e"
    and b: "b = take e (drop (ci + 1) s)"
    by (auto simp: tryCode_def slice_def Let_def split: if_splits option.splits)
  have op: "take 1 (drop ci s) = [CHR 0x60]" using c0 by (rule char_at_take1)
  have l1: "length [CHR 0x60] = 1" by simp
  note d = delimited [OF assms(1) op l1 ix]
  have lb: "length b = e" using d(3) b by simp
  have eq: "ci + (2 + length b) = ci + (1 + e + length [CHR 0x60])" using lb by simp
  show "ci + (2 + length b) \<le> length s" unfolding eq by (rule d(1))
  show "b \<noteq> []" using lb e by auto
  have "slice s ci (ci + (2 + length b)) = [CHR 0x60] @ b @ [CHR 0x60]"
    using d(2) by (simp only: eq b [symmetric])
  then show "is_source \<lparr> me_type = Code, me_content = b, me_level = None \<rparr>
           (slice s ci (ci + (2 + length b)))"
    by (simp add: is_source_def)
qed

lemma nextMarkdownIndex_bounds:
  assumes "ci < length s"
  shows "ci < nextMarkdownIndex s ci" and "nextMarkdownIndex s ci \<le> length s"
proof -
  let ?P = "\<lambda>i. s ! i = CHR ''*'' \<or> s ! i = CHR 0x60 \<or> (s ! i = CHR ''#'' \<and> s ! (i - 1) = CHR 0x0A)"
  show "ci < nextMarkdownIndex s ci"
  proof (cases "find ?P [ci + 1 ..< length s]")
    case None
    then show ?thesis using assms by (simp add: nextMarkdownIndex_def)
  next
    case (Some i)
    then have "i \<in> set [ci + 1 ..< length s]" by (auto simp: find_Some_iff)
    then show ?thesis using Some by (simp add: nextMarkdownIndex_def)
  qed
  show "nextMarkdownIndex s ci \<le> length s"
  proof (cases "find ?P [ci + 1 ..< length s]")
    case None
    then show ?thesis by (simp add: nextMarkdownIndex_def)
  next
    case (Some i)
    then have "i \<in> set [ci + 1 ..< length s]" by (auto simp: find_Some_iff)
    then show ?thesis using Some by (simp add: nextMarkdownIndex_def)
  qed
qed

lemma scan_step:
  assumes "ci < length s"
  shows "\<exists>e. fst (scan s ci) = [e] \<and> ci < snd (scan s ci) \<and> snd (scan s ci) \<le> length s \<and>
             is_source e (slice s ci (snd (scan s ci))) \<and> me_content e \<noteq> []"
proof (cases "tryHeader s ci")
  case (Some t)
  then obtain l c n where t: "tryHeader s ci = Some (l, c, n)" by (cases t) auto
  from tryHeader_source [OF assms t] t show ?thesis by (simp add: scan_def)
next
  case nh: None
  show ?thesis
  proof (cases "tryBold s ci")
    case (Some b)
    from tryBold_source [OF assms Some] nh Some show ?thesis by (simp add: scan_def)
  next
    case nb: None
    show ?thesis
    proof (cases "tryItalic s ci")
      case (Some b)
      from tryItalic_source [OF assms Some] nh nb Some show ?thesis by (simp add: scan_def)
    next
      case ni: None
      show ?thesis
      proof (cases "tryCode s ci")
        case (Some b)
        from tryCode_source [OF assms Some] nh nb ni Some show ?thesis by (simp add: scan_def)
      next
        case nc: None
        note nb' = nextMarkdownIndex_bounds [OF assms]
        have ne: "slice s ci (nextMarkdownIndex s ci) \<noteq> []"
          using nb' assms by (simp add: slice_def)
        show ?thesis
          using nh nb ni nc nb' ne by (simp add: scan_def Let_def is_source_def)
      qed
    qed
  qed
qed

lemma scan_advances: "ci < length s \<Longrightarrow> ci < snd (scan s ci) \<and> snd (scan s ci) \<le> length s"
  using scan_step [of ci s] by blast

lemma parse_loop_run_seq:
  "\<exists>out. parse_loop s els ci = Some (els @ out) \<and> run_seq s ci out"
proof (induction "length s - ci" arbitrary: ci els rule: less_induct)
  case less
  show ?case
  proof (cases "ci < length s")
    case True
    from scan_advances [OF True] have "length s - snd (scan s ci) < length s - ci"
      by (auto intro: diff_less_mono2)
    from less [OF this, of "els @ fst (scan s ci)"] obtain out where
      out: "parse_loop s (els @ fst (scan s ci)) (snd (scan s ci)) =
              Some ((els @ fst (scan s ci)) @ out)"
        "run_seq s (snd (scan s ci)) out"
      by blast
    have "parse_loop s els ci = parse_loop s (els @ fst (scan s ci)) (snd (scan s ci))"
      using True by (subst parse_loop.simps) simp
    with out have "parse_loop s els ci = Some (els @ (fst (scan s ci) @ out))" by simp
    moreover have "run_seq s ci (fst (scan s ci) @ out)"
      using True out(2) by (rule run_step)
    ultimately show ?thesis by blast
  next
    case False
    then have "parse_loop s els ci = Some (els @ [])"
      by (subst parse_loop.simps) simp
    moreover have "run_seq s ci []" using False by (rule run_end)
    ultimately show ?thesis by blast
  qed
qed

lemma parseMarkdown_run_seq: "\<exists>els. parseMarkdown s = Some els \<and> run_seq s 0 els"
  using parse_loop_run_seq [of s "[]" 0] by (simp add: parseMarkdown_def)

text \<open>
  Claim C10. Every pass through the loop body moves the cursor strictly forward and
  never past the end: a recognized construct consumes its markers and a content that is
  not empty, the plain text branch at least one character. So the loop ends on every
  input: \<open>parseMarkdown\<close> returns a run sequence for every fragment.
\<close>

theorem tokenizer_terminates:
  "(\<exists>els. parseMarkdown s = Some els) \<and>
   (\<forall>ci < length s. ci < snd (scan s ci) \<and> snd (scan s ci) \<le> length s \<and>
      (\<exists>e. fst (scan s ci) = [e] \<and> me_content e \<noteq> [] \<and>
           is_source e (slice s ci (snd (scan s ci)))))"
proof (rule conjI)
  show "\<exists>els. parseMarkdown s = Some els" using parseMarkdown_run_seq by blast
  show "\<forall>ci < length s. ci < snd (scan s ci) \<and> snd (scan s ci) \<le> length s \<and>
      (\<exists>e. fst (scan s ci) = [e] \<and> me_content e \<noteq> [] \<and>
           is_source e (slice s ci (snd (scan s ci))))"
    using scan_step by blast
qed

theorem tokenizer_terminates_witness:
  "(\<exists>els. parseMarkdown ''**bold** and *x'' = Some els) \<and>
   0 < length ''**bold** and *x'' \<and>
   0 < snd (scan ''**bold** and *x'' 0) \<and>
   snd (scan ''**bold** and *x'' 0) \<le> length ''**bold** and *x'' \<and>
   snd (scan ''**bold** and *x'' 0) = 8"
proof -
  have h: "0 < length ''**bold** and *x''" by simp
  have v: "snd (scan ''**bold** and *x'' 0) = 8" by code_simp
  from tokenizer_terminates [of "''**bold** and *x''"] h v show ?thesis by blast
qed






























section \<open>The paginated renderer\<close>

subsection \<open>Wrapping: what holds\<close>

text \<open>
  Every word of every run is drawn exactly once and whole, in order: the texts a call
  draws, each without the space that may lead it, are the words of the runs. So no word
  is ever placed across two lines.
\<close>

lemma draw_segments_texts:
  "map pt_text (snd (snd (draw_segments env fs segs (f, x, items)))) =
     map pt_text items @ map sg_text segs"
  by (induction segs arbitrary: f x items) (auto simp: Let_def)

lemma flushLine_texts: "all_texts (flushLine env indent lh st) = all_texts st"
proof (cases "rs_currentLine st = []")
  case True
  then show ?thesis by (simp add: flushLine_def)
next
  case False
  then show ?thesis
    using draw_segments_texts [of env "rs_fontSize st" "rs_currentLine st" "rs_font st"
        "margin + indent" "[]"]
    by (simp add: flushLine_def Let_def split_beta all_texts_def line_texts_def)
qed

lemma flushLine_current: "rs_currentLine (flushLine env indent lh st) = []"
  by (simp add: flushLine_def Let_def split_beta)

lemma strip_space_word:
  assumes "w \<noteq> []" and "\<not> isWhiteSpace (hd w)"
  shows "strip_space w = w" and "strip_space ('' '' @ w) = w"
proof -
  have sp: "isWhiteSpace (CHR '' '')" by (simp add: isWhiteSpace_def)
  obtain c r where w: "w = c # r" using assms(1) by (cases w) auto
  with assms(2) sp have "c \<noteq> CHR '' ''" by auto
  then show "strip_space w = w" by (simp add: strip_space_def w)
  show "strip_space ('' '' @ w) = w" by (simp add: strip_space_def)
qed

lemma add_word_texts:
  "\<exists>t. (t = w \<or> t = '' '' @ w) \<and>
       all_texts (add_word env indent lh b i c index w st) = all_texts st @ [t]"
proof -
  define st1 where "st1 = st \<lparr> rs_font := (if c then Courier else Helvetica, fontStyleOf b i) \<rparr>"
  define wws where "wws = (if rs_currentLine st \<noteq> [] \<or> index > 0 then '' '' @ w else w)"
  define ww where "ww = getTextWidth env (rs_font st1) (rs_fontSize st1) wws"
  have a1: "all_texts st1 = all_texts st"
    by (simp add: st1_def all_texts_def line_texts_def)
  have t: "wws = w \<or> wws = '' '' @ w" by (simp add: wws_def)
  show ?thesis
  proof (cases "rs_currentLineWidth st1 + ww > maxWidth env - indent \<and> rs_currentLine st1 \<noteq> []")
    case True
    define st2 where "st2 = flushLine env indent lh st1"
    have "add_word env indent lh b i c index w st =
        st2 \<lparr> rs_currentLine := rs_currentLine st2 @
                  [\<lparr> sg_text = w, sg_isBold = b, sg_isItalic = i, sg_isCode = c \<rparr>],
               rs_currentLineWidth := getTextWidth env (rs_font st2) (rs_fontSize st2) w \<rparr>"
      using True unfolding add_word_def Let_def st1_def [symmetric] wws_def [symmetric]
        ww_def [symmetric] st2_def [symmetric] by simp
    then have "all_texts (add_word env indent lh b i c index w st) = all_texts st2 @ [w]"
      by (simp add: all_texts_def line_texts_def)
    also have "all_texts st2 = all_texts st" unfolding st2_def flushLine_texts a1 ..
    finally show ?thesis by blast
  next
    case False
    have "add_word env indent lh b i c index w st =
        st1 \<lparr> rs_currentLine := rs_currentLine st1 @
                  [\<lparr> sg_text = wws, sg_isBold = b, sg_isItalic = i, sg_isCode = c \<rparr>],
               rs_currentLineWidth := rs_currentLineWidth st1 + ww \<rparr>"
      using False unfolding add_word_def Let_def st1_def [symmetric] wws_def [symmetric]
        ww_def [symmetric] by auto
    then have "all_texts (add_word env indent lh b i c index w st) = all_texts st1 @ [wws]"
      by (simp add: all_texts_def line_texts_def)
    with a1 t show ?thesis by auto
  qed
qed

lemma add_word_words:
  assumes "w \<noteq> []" and "\<not> isWhiteSpace (hd w)"
  shows "map strip_space (all_texts (add_word env indent lh b i c index w st)) =
         map strip_space (all_texts st) @ [w]"
  using add_word_texts [of w env indent lh b i c index st] strip_space_word [OF assms]
  by auto

lemma add_words_words:
  assumes "list_all (\<lambda>w. w \<noteq> [] \<and> \<not> isWhiteSpace (hd w)) ws"
  shows "map strip_space (all_texts (add_words env indent lh b i c index ws st)) =
         map strip_space (all_texts st) @ ws"
  using assms
proof (induction ws arbitrary: index st)
  case Nil
  then show ?case by simp
next
  case (Cons w ws)
  then show ?case by (simp add: add_word_words)
qed

lemma split_spaces_pieces:
  "p \<in> set (split_spaces s) \<Longrightarrow> list_all (\<lambda>c. \<not> isWhiteSpace c) p"
proof (induction s arbitrary: p rule: split_spaces.induct)
  case 1
  then show ?case by simp
next
  case (2 c cs)
  show ?case
  proof (cases "isWhiteSpace c")
    case True
    with "2.prems" have "p = [] \<or> p \<in> set (split_spaces (dropWhile isWhiteSpace cs))" by simp
    then show ?thesis using "2.IH"(1) [OF True] by auto
  next
    case False
    then show ?thesis
      using "2.prems" "2.IH"(2) [OF False]
      by (cases "split_spaces cs") (auto split: list.splits)
  qed
qed

lemma words_of_words: "list_all (\<lambda>w. w \<noteq> [] \<and> \<not> isWhiteSpace (hd w)) (words_of s)"
proof -
  have "w \<noteq> [] \<and> \<not> isWhiteSpace (hd w)" if "w \<in> set (words_of s)" for w
  proof -
    from that have ne: "w \<noteq> []" and "w \<in> set (split_spaces s)" by (auto simp: words_of_def)
    from split_spaces_pieces [OF this(2)] ne show ?thesis by (cases w) auto
  qed
  then show ?thesis by (simp add: list_all_iff)
qed

lemma addToLine_words:
  "map strip_space (all_texts (addToLine env indent lh s b i c st)) =
   map strip_space (all_texts st) @ words_of s"
  unfolding addToLine_def by (rule add_words_words [OF words_of_words])

lemma render_element_words:
  "map strip_space (all_texts (render_element env indent lh st e)) =
   map strip_space (all_texts st) @ words_of (me_content e)"
proof (cases "me_type e")
  case Header
  have y: "all_texts (x \<lparr> rs_yPosition := v \<rparr>) = all_texts x" for x v
    by (simp add: all_texts_def line_texts_def)
  show ?thesis
    using Header
    by (simp add: render_element_def Let_def y flushLine_texts addToLine_words)
qed (simp_all add: render_element_def addToLine_words)

lemma foldl_render_words:
  "map strip_space (all_texts (foldl (render_element env indent lh) st els)) =
   map strip_space (all_texts st) @ concat (map (\<lambda>e. words_of (me_content e)) els)"
  by (induction els arbitrary: st) (simp_all add: render_element_words)

lemma words_drawn_whole:
  "\<exists>els st'. parseMarkdown s = Some els \<and>
      addFormattedText env s fontSize indent st = Some st' \<and>
      map strip_space (line_texts st') =
        map strip_space (line_texts st) @ concat (map (\<lambda>e. words_of (me_content e)) els)"
proof -
  from parseMarkdown_run_seq obtain els where els: "parseMarkdown s = Some els" by blast
  define st0 where "st0 = st \<lparr> rs_fontSize := fontSize, rs_currentLine := [],
                          rs_currentLineWidth := 0 \<rparr>"
  define st1 where "st1 = foldl (render_element env indent (fontSize * (6 / 10))) st0 els"
  define st2 where "st2 = flushLine env indent (fontSize * (6 / 10)) st1"
  have r: "addFormattedText env s fontSize indent st =
      Some (st2 \<lparr> rs_yPosition := rs_yPosition st2 + 5 \<rparr>)"
    by (simp add: addFormattedText_def els Let_def st0_def st1_def st2_def)
  have a0: "all_texts st0 = line_texts st" by (simp add: st0_def all_texts_def line_texts_def)
  have "all_texts st2 = line_texts st2"
    by (simp add: all_texts_def st2_def flushLine_current)
  moreover have "all_texts st2 = all_texts st1" unfolding st2_def by (rule flushLine_texts)
  ultimately have "map strip_space (line_texts st2) =
      map strip_space (line_texts st) @ concat (map (\<lambda>e. words_of (me_content e)) els)"
    using foldl_render_words [of env indent "fontSize * (6 / 10)" st0 els] a0
    by (simp add: st1_def)
  moreover have "line_texts (st2 \<lparr> rs_yPosition := rs_yPosition st2 + 5 \<rparr>) = line_texts st2"
    by (simp add: line_texts_def)
  ultimately show ?thesis using els r by auto
qed

text \<open>
  Every flushed line of more than one word fits the usable width as the renderer keeps
  track of it: with the first word of the line measured under the font the sink had
  when the word was put on the line, and every other word under its own.
\<close>

lemma draw_segments_pairs:
  "map (\<lambda>p. (pt_font p, pt_text p)) (snd (snd (draw_segments env fs segs (f, x, items)))) =
     map (\<lambda>p. (pt_font p, pt_text p)) items @ seg_pairs segs"
  by (induction segs arbitrary: f x items) (auto simp: Let_def seg_pairs_def seg_font_def)

lemma flushLine_tracked:
  assumes "tracked_inv env fs usable st"
  shows "tracked_inv env fs usable (flushLine env indent lh st)"
proof (cases "rs_currentLine st")
  case Nil
  with assms show ?thesis by (simp add: flushLine_def)
next
  case (Cons g gs)
  from assms Cons have fit: "fits_as_tracked env fs usable (seg_pairs (g # gs))"
    by (auto simp: tracked_inv_def fits_as_tracked_def seg_pairs_def)
  have fs: "rs_fontSize st = fs" and lf: "lines_fit env fs usable st"
    using assms by (simp_all add: tracked_inv_def)
  show ?thesis
    using Cons fit fs lf
      draw_segments_pairs [of env "rs_fontSize st" "rs_currentLine st" "rs_font st"
        "margin + indent" "[]"]
    by (simp add: flushLine_def Let_def split_beta tracked_inv_def lines_fit_def line_pairs_def)
qed

lemma add_word_tracked:
  assumes inv: "tracked_inv env fs (maxWidth env - indent) st" and flags: "c \<longrightarrow> \<not> b \<and> \<not> i"
  shows "tracked_inv env fs (maxWidth env - indent) (add_word env indent lh b i c index w st)"
proof -
  define st1 where "st1 = st \<lparr> rs_font := (if c then Courier else Helvetica, fontStyleOf b i) \<rparr>"
  define wws where "wws = (if rs_currentLine st \<noteq> [] \<or> index > 0 then '' '' @ w else w)"
  define ww where "ww = getTextWidth env (rs_font st1) (rs_fontSize st1) wws"
  define sg where "sg = \<lparr> sg_text = wws, sg_isBold = b, sg_isItalic = i, sg_isCode = c \<rparr>"
  have inv1: "tracked_inv env fs (maxWidth env - indent) st1"
    using inv by (simp add: st1_def tracked_inv_def lines_fit_def cong: list.case_cong)
  have fs1: "rs_fontSize st1 = fs" using inv1 by (simp add: tracked_inv_def)
  have own: "rs_font st1 = seg_font sg"
    using flags by (auto simp: st1_def seg_font_def sg_def fontStyleOf_def)
  show ?thesis
  proof (cases "rs_currentLineWidth st1 + ww > maxWidth env - indent \<and> rs_currentLine st1 \<noteq> []")
    case True
    define st2 where "st2 = flushLine env indent lh st1"
    have eq: "add_word env indent lh b i c index w st =
        st2 \<lparr> rs_currentLine := rs_currentLine st2 @
                  [\<lparr> sg_text = w, sg_isBold = b, sg_isItalic = i, sg_isCode = c \<rparr>],
               rs_currentLineWidth := getTextWidth env (rs_font st2) (rs_fontSize st2) w \<rparr>"
      using True unfolding add_word_def Let_def st1_def [symmetric] wws_def [symmetric]
        ww_def [symmetric] st2_def [symmetric] by simp
    have inv2: "tracked_inv env fs (maxWidth env - indent) st2"
      unfolding st2_def using inv1 by (rule flushLine_tracked)
    have cl2: "rs_currentLine st2 = []" unfolding st2_def by (rule flushLine_current)
    have fs2: "rs_fontSize st2 = fs" using inv2 by (simp add: tracked_inv_def)
    have ex: "\<exists>f. getTextWidth env (rs_font st2) fs w = getTextWidth env f fs w" by blast
    show ?thesis
      unfolding eq using inv2 cl2 ex fs2
      by (simp add: tracked_inv_def lines_fit_def own_width_def seg_pairs_def
            del: split_paired_Ex)
  next
    case False
    have eq: "add_word env indent lh b i c index w st =
        st1 \<lparr> rs_currentLine := rs_currentLine st1 @ [sg],
               rs_currentLineWidth := rs_currentLineWidth st1 + ww \<rparr>"
      using False unfolding add_word_def Let_def st1_def [symmetric] wws_def [symmetric]
        ww_def [symmetric] sg_def by auto
    have ww: "ww = getTextWidth env (seg_font sg) fs wws" by (simp add: ww_def own fs1)
    show ?thesis
    proof (cases "rs_currentLine st1")
      case Nil
      with inv1 have z: "rs_currentLineWidth st1 = 0" by (simp add: tracked_inv_def)
      have ex: "\<exists>f. ww = getTextWidth env f fs wws" using ww by blast
      show ?thesis
        unfolding eq using inv1 Nil z ex
        by (simp add: tracked_inv_def lines_fit_def own_width_def seg_pairs_def sg_def
              del: split_paired_Ex)
    next
      case (Cons g gs)
      with False have le: "rs_currentLineWidth st1 + ww \<le> maxWidth env - indent" by simp
      from inv1 Cons obtain f where
        f: "rs_currentLineWidth st1 =
              getTextWidth env f fs (sg_text g) + own_width env fs (seg_pairs gs)"
        by (auto simp: tracked_inv_def)
      have "rs_currentLineWidth st1 + ww =
              getTextWidth env f fs (sg_text g) + own_width env fs (seg_pairs (gs @ [sg]))"
        using f ww by (simp add: own_width_def seg_pairs_def sg_def)
      then have ex: "\<exists>f. rs_currentLineWidth st1 + ww =
              getTextWidth env f fs (sg_text g) + own_width env fs (seg_pairs (gs @ [sg]))"
        by blast
      show ?thesis
        unfolding eq using inv1 Cons le ex
        by (simp add: tracked_inv_def lines_fit_def del: split_paired_Ex)
    qed
  qed
qed

lemma add_words_tracked:
  assumes "tracked_inv env fs (maxWidth env - indent) st" and "c \<longrightarrow> \<not> b \<and> \<not> i"
  shows "tracked_inv env fs (maxWidth env - indent) (add_words env indent lh b i c index ws st)"
  using assms(1)
proof (induction ws arbitrary: index st)
  case Nil
  then show ?case by simp
next
  case (Cons w ws)
  have "tracked_inv env fs (maxWidth env - indent) (add_word env indent lh b i c index w st)"
    using Cons.prems assms(2) by (rule add_word_tracked)
  then show ?case using Cons.IH by simp
qed

lemma render_element_tracked:
  assumes "tracked_inv env fs (maxWidth env - indent) st"
  shows "tracked_inv env fs (maxWidth env - indent) (render_element env indent lh st e)"
proof (cases "me_type e")
  case Header
  have y: "tracked_inv env fs u (x \<lparr> rs_yPosition := v \<rparr>) = tracked_inv env fs u x" for x v u
    by (simp add: tracked_inv_def lines_fit_def cong: list.case_cong)
  have "tracked_inv env fs (maxWidth env - indent)
      (flushLine env indent lh
         (addToLine env indent lh (me_content e) True False False (flushLine env indent lh st)))"
    unfolding addToLine_def
    by (intro flushLine_tracked add_words_tracked assms) simp
  then show ?thesis using Header by (simp add: render_element_def Let_def y)
qed (simp_all add: render_element_def addToLine_def add_words_tracked [OF assms])

lemma foldl_render_tracked:
  assumes "tracked_inv env fs (maxWidth env - indent) st"
  shows "tracked_inv env fs (maxWidth env - indent)
           (foldl (render_element env indent lh) st els)"
  using assms
proof (induction els arbitrary: st)
  case Nil
  then show ?case by simp
next
  case (Cons e els)
  have "tracked_inv env fs (maxWidth env - indent) (render_element env indent lh st e)"
    using Cons.prems by (rule render_element_tracked)
  then show ?case using Cons.IH by simp
qed

lemma lines_fit_as_tracked:
  assumes "lines_fit env fontSize (maxWidth env - indent) st"
  shows "\<exists>st'. addFormattedText env s fontSize indent st = Some st' \<and>
               lines_fit env fontSize (maxWidth env - indent) st'"
proof -
  from parseMarkdown_run_seq obtain els where els: "parseMarkdown s = Some els" by blast
  define st0 where "st0 = st \<lparr> rs_fontSize := fontSize, rs_currentLine := [],
                          rs_currentLineWidth := 0 \<rparr>"
  have "tracked_inv env fontSize (maxWidth env - indent) st0"
    using assms by (simp add: st0_def tracked_inv_def lines_fit_def)
  then have "tracked_inv env fontSize (maxWidth env - indent)
      (flushLine env indent (fontSize * (6 / 10))
         (foldl (render_element env indent (fontSize * (6 / 10))) st0 els))"
    by (intro flushLine_tracked foldl_render_tracked)
  then show ?thesis
    using els by (simp add: addFormattedText_def Let_def st0_def tracked_inv_def lines_fit_def)
qed

subsection \<open>Wrapping: the measured width of a line\<close>

text \<open>
  Claim C7 does not hold of the code. \<open>addToLine\<close> sets the font of the word before it
  measures the word with its leading space; but the word that starts a new line after a
  wrap is measured after \<open>flushLine\<close> has drawn the old line, under the font that
  \<open>flushLine\<close> left behind. For a code run that is Helvetica instead of Courier: the
  line is taken to be narrower than it is and more words are packed on it than fit. On
  an A4 page (usable width 150) a code run of 14 words of ten \<open>i\<close> gives a second line
  of 7 words that measures 2413/15, more than 160. (What does hold of the wrapping is
  in \<open>words_drawn_whole\<close> and \<open>lines_fit_as_tracked\<close> above.)
\<close>

theorem wrapped_code_line_overflows:
  "maxWidth (demoEnv 210) - 20 = 150 \<and>
   map_option (\<lambda>st. map (\<lambda>l. (length (pl_items l), line_width (demoEnv 210) 10 l)) (rs_lines st))
     (addFormattedText (demoEnv 210) codeParagraph 10 20 startState) =
   Some [(6, 1651 / 12), (7, 2413 / 15), (1, 127 / 6)] \<and>
   (150 :: rat) < 2413 / 15"
  by code_simp

end
